theory Spec2Isabelle
  imports Complex_Main
begin

section \<open>Data model (map.js: the global \<open>graph\<close>)\<close>

text \<open>
  The JavaScript keeps one global object \<open>graph = { nodes: [], edges: [] }\<close>. A node is
  \<open>{ id, lat, lng, osmId }\<close>, an edge is
  \<open>{ from, to, crimes, weight, wayId, streetName, neighborhood }\<close>.
  The fields \<open>id\<close>, \<open>from\<close> and \<open>to\<close> are written \<open>node_id\<close>, \<open>from_node\<close> and
  \<open>to_node\<close> here (the short names are taken in Isabelle). JavaScript numbers are
  modelled by the reals (finite values, exact arithmetic); node identifiers and OSM
  identifiers by natural numbers. The graph is passed to every function explicitly.
\<close>

record node =
  node_id :: nat
  lat :: real
  lng :: real
  osmId :: nat

record edge =
  from_node :: nat
  to_node :: nat
  crimes :: int
  weight :: real
  wayId :: nat
  streetName :: string
  neighborhood :: string

record graph =
  nodes :: "node list"
  edges :: "edge list"

definition node_ids :: "graph \<Rightarrow> nat set" where
  "node_ids g = node_id ` set (nodes g)"

section \<open>The shortest-path solver (routing.js: \<open>dijkstra\<close>)\<close>

subsection \<open>JavaScript values used by the solver\<close>

text \<open>
  \<open>previous[k]\<close> is \<open>undefined\<close> for a key never written, \<open>null\<close> after the
  initialisation, or a node identifier. \<open>distances[k]\<close> is a finite number or
  \<open>Infinity\<close>; reading a key never written gives \<open>undefined\<close>, which every comparison
  and addition turns into \<open>NaN\<close>.
\<close>

datatype jsref = Undefined | Null | NodeId nat

datatype jsnum = NaN | Num real | Infinity

fun js_lt :: "jsnum \<Rightarrow> jsnum \<Rightarrow> bool" where
  "js_lt (Num a) (Num b) = (a < b)"
| "js_lt (Num a) Infinity = True"
| "js_lt _ _ = False"

fun js_add :: "jsnum \<Rightarrow> real \<Rightarrow> jsnum" where
  "js_add (Num a) w = Num (a + w)"
| "js_add Infinity w = Infinity"
| "js_add NaN w = NaN"

text \<open>
  The state of one run: the two objects \<open>distances\<close> and \<open>previous\<close>, and the
  \<open>Set\<close> \<open>unvisited\<close>. A JavaScript \<open>Set\<close> iterates in insertion order and
  holds no duplicates, so it is a list here: \<open>add\<close> appends an absent element,
  \<open>delete\<close> removes it.
\<close>

record dstate =
  distances :: "nat \<Rightarrow> jsnum"
  previous :: "nat \<Rightarrow> jsref"
  unvisited :: "nat list"

definition set_add :: "nat \<Rightarrow> nat list \<Rightarrow> nat list" where
  "set_add x xs = (if x \<in> set xs then xs else xs @ [x])"

subsection \<open>Initialisation (lines 10-20)\<close>

definition init_node :: "node \<Rightarrow> dstate \<Rightarrow> dstate" where
  "init_node n st =
     st\<lparr>distances := (distances st)(node_id n := Infinity),
        previous := (previous st)(node_id n := Null),
        unvisited := set_add (node_id n) (unvisited st)\<rparr>"

definition empty_state :: dstate where
  "empty_state = \<lparr>distances = (\<lambda>_. NaN), previous = (\<lambda>_. Undefined), unvisited = []\<rparr>"

definition initialize :: "graph \<Rightarrow> nat \<Rightarrow> dstate" where
  "initialize g startNodeId =
     (let st = fold init_node (nodes g) empty_state
      in st\<lparr>distances := (distances st)(startNodeId := Num 0)\<rparr>)"

subsection \<open>Selecting the unvisited node of minimum distance (lines 25-33)\<close>

fun min_step :: "(nat \<Rightarrow> jsnum) \<Rightarrow> nat \<Rightarrow> nat option \<times> jsnum \<Rightarrow> nat option \<times> jsnum" where
  "min_step ds nodeId (currentNode, minDist) =
     (if js_lt (ds nodeId) minDist then (Some nodeId, ds nodeId)
      else (currentNode, minDist))"

definition find_min :: "(nat \<Rightarrow> jsnum) \<Rightarrow> nat list \<Rightarrow> nat option" where
  "find_min ds unv = fst (fold (min_step ds) unv (None, Infinity))"

subsection \<open>Relaxing the edges at the current node (lines 41-60)\<close>

definition neighbor_of :: "edge \<Rightarrow> nat \<Rightarrow> nat option" where
  "neighbor_of e currentNode =
     (if from_node e = currentNode then Some (to_node e)
      else if to_node e = currentNode then Some (from_node e)
      else None)"

definition relax_edge :: "nat \<Rightarrow> edge \<Rightarrow> dstate \<Rightarrow> dstate" where
  "relax_edge currentNode e st =
     (case neighbor_of e currentNode of
        None \<Rightarrow> st
      | Some neighbor \<Rightarrow>
          if neighbor \<in> set (unvisited st) then
            (let alt = js_add (distances st currentNode) (weight e)
             in if js_lt alt (distances st neighbor)
                then st\<lparr>distances := (distances st)(neighbor := alt),
                        previous := (previous st)(neighbor := NodeId currentNode)\<rparr>
                else st)
          else st)"

text \<open>
  One round after the selection: \<open>unvisited.delete(currentNode)\<close>, then
  \<open>graph.edges.forEach\<close> over all edges.
\<close>

definition visit :: "graph \<Rightarrow> nat \<Rightarrow> dstate \<Rightarrow> dstate" where
  "visit g currentNode st =
     fold (relax_edge currentNode) (edges g)
       (st\<lparr>unvisited := removeAll currentNode (unvisited st)\<rparr>)"

lemma unvisited_relax_edge: "unvisited (relax_edge c e st) = unvisited st"
  by (simp add: relax_edge_def Let_def split: option.splits)

lemma unvisited_fold_relax: "unvisited (fold (relax_edge c) es st) = unvisited st"
  by (induction es arbitrary: st) (simp_all add: unvisited_relax_edge)

lemma unvisited_visit: "unvisited (visit g c st) = removeAll c (unvisited st)"
  by (simp add: visit_def unvisited_fold_relax)

lemma js_lt_irrefl [simp]: "\<not> js_lt a a"
  by (cases a) simp_all

lemma js_lt_Infinity_iff: "js_lt a Infinity \<longleftrightarrow> (\<exists>d. a = Num d)"
  by (cases a) simp_all

lemma js_lt_trans: "js_lt a b \<Longrightarrow> js_lt b c \<Longrightarrow> js_lt a c"
  by (cases a; cases b; cases c) simp_all

lemma js_lt_not_le_trans: "\<not> js_lt u b \<Longrightarrow> js_lt a b \<Longrightarrow> \<not> js_lt u a"
  by (cases a; cases b; cases u) simp_all

lemma fold_min_step:
  "fold (min_step ds) unv (cur, md) = (cur', md') \<Longrightarrow>
     (cur' = cur \<and> md' = md \<and> (\<forall>u\<in>set unv. \<not> js_lt (ds u) md)) \<or>
     (\<exists>c\<in>set unv. cur' = Some c \<and> md' = ds c \<and> js_lt md' md \<and>
        (\<forall>u\<in>set unv. \<not> js_lt (ds u) md'))"
proof (induction unv arbitrary: cur md)
  case Nil
  then show ?case by simp
next
  case (Cons x xs)
  show ?case
  proof (cases "js_lt (ds x) md")
    case True
    with Cons.prems have "fold (min_step ds) xs (Some x, ds x) = (cur', md')"
      by simp
    from Cons.IH[OF this] True show ?thesis
      by (auto intro: js_lt_trans dest: js_lt_not_le_trans)
  next
    case False
    with Cons.prems have "fold (min_step ds) xs (cur, md) = (cur', md')"
      by simp
    from Cons.IH[OF this] False show ?thesis
      by (auto dest: js_lt_not_le_trans)
  qed
qed

lemma find_min_Some:
  assumes "find_min ds unv = Some c"
  shows "c \<in> set unv" and "js_lt (ds c) Infinity"
    and "\<forall>u\<in>set unv. \<not> js_lt (ds u) (ds c)"
proof -
  obtain cur' md' where f: "fold (min_step ds) unv (None, Infinity) = (cur', md')"
    by (cases "fold (min_step ds) unv (None, Infinity)") auto
  with assms have c: "cur' = Some c" by (simp add: find_min_def)
  from fold_min_step[OF f] c
  show "c \<in> set unv" and "js_lt (ds c) Infinity"
    and "\<forall>u\<in>set unv. \<not> js_lt (ds u) (ds c)"
    by auto
qed

lemma find_min_None:
  assumes "find_min ds unv = None"
  shows "\<forall>u\<in>set unv. \<not> js_lt (ds u) Infinity"
proof -
  obtain cur' md' where f: "fold (min_step ds) unv (None, Infinity) = (cur', md')"
    by (cases "fold (min_step ds) unv (None, Infinity)") auto
  with assms have c: "cur' = None" by (simp add: find_min_def)
  from fold_min_step[OF f] c show ?thesis by auto
qed

subsection \<open>The main loop (lines 23-61)\<close>

text \<open>
  Each round either leaves the loop (no unvisited node, no node of finite distance, or
  the destination selected) or deletes the selected node from \<open>unvisited\<close>, so
  the loop terminates.
\<close>

function main_loop :: "graph \<Rightarrow> nat \<Rightarrow> dstate \<Rightarrow> dstate" where
  "main_loop g endNodeId st =
     (if unvisited st = [] then st
      else case find_min (distances st) (unvisited st) of
             None \<Rightarrow> st
           | Some currentNode \<Rightarrow>
               if currentNode = endNodeId then st
               else main_loop g endNodeId (visit g currentNode st))"
  by pat_completeness auto
termination
proof (relation "measure (\<lambda>(g, e, st). length (unvisited st))")
  show "wf (measure (\<lambda>(g, e, st). length (unvisited st)))" by simp
next
  fix g :: graph and endNodeId :: nat and st :: dstate and c :: nat
  assume "find_min (distances st) (unvisited st) = Some c"
  then have "c \<in> set (unvisited st)" by (rule find_min_Some(1))
  then have "length (removeAll c (unvisited st)) < length (unvisited st)"
    by (rule length_removeAll_less)
  then show "((g, endNodeId, visit g c st), (g, endNodeId, st))
      \<in> measure (\<lambda>(g, e, st). length (unvisited st))"
    by (simp add: unvisited_visit)
qed

declare main_loop.simps [simp del]

subsection \<open>Rebuilding the path (lines 63-71)\<close>

text \<open>
  \<open>while (current !== null) { path.unshift(current); current = previous[current]; }\<close>
  runs for ever once \<open>current\<close> is \<open>undefined\<close> (\<open>previous[undefined]\<close> is
  \<open>undefined\<close> again), so the loop is a partial function: \<open>None\<close> means that it
  does not return.
\<close>

definition lookup_previous :: "(nat \<Rightarrow> jsref) \<Rightarrow> jsref \<Rightarrow> jsref" where
  "lookup_previous prev current = (case current of NodeId n \<Rightarrow> prev n | _ \<Rightarrow> Undefined)"

partial_function (option) reconstruct ::
  "(nat \<Rightarrow> jsref) \<Rightarrow> jsref \<Rightarrow> jsref list \<Rightarrow> jsref list option" where
  "reconstruct prev current path =
     (if current \<noteq> Null
      then reconstruct prev (lookup_previous prev current) (current # path)
      else Some path)"

text \<open>
  \<open>dijkstra\<close> returns the path or \<open>null\<close> (the inner option); the outer
  \<open>None\<close> is a run that does not return.
\<close>

definition dijkstra :: "graph \<Rightarrow> nat \<Rightarrow> nat \<Rightarrow> jsref list option option" where
  "dijkstra g startNodeId endNodeId =
     (let st = main_loop g endNodeId (initialize g startNodeId)
      in case reconstruct (previous st) (NodeId endNodeId) [] of
           None \<Rightarrow> None
         | Some path \<Rightarrow> Some (if length path > 1 then Some path else None))"


subsection \<open>The same loop run to exhaustion\<close>

text \<open>
  The specification compares the solver with "the same Dijkstra loop run to exhaustion
  of the unvisited set". That loop is \<open>main_loop\<close> without the test
  \<open>currentNode === endNodeId\<close>; it is not part of the program and is defined here
  only for that comparison.
\<close>

function main_loop_exhaustive :: "graph \<Rightarrow> dstate \<Rightarrow> dstate" where
  "main_loop_exhaustive g st =
     (if unvisited st = [] then st
      else case find_min (distances st) (unvisited st) of
             None \<Rightarrow> st
           | Some currentNode \<Rightarrow> main_loop_exhaustive g (visit g currentNode st))"
  by pat_completeness auto
termination
proof (relation "measure (\<lambda>(g, st). length (unvisited st))")
  show "wf (measure (\<lambda>(g, st). length (unvisited st)))" by simp
next
  fix g :: graph and st :: dstate and c :: nat
  assume "find_min (distances st) (unvisited st) = Some c"
  then have "c \<in> set (unvisited st)" by (rule find_min_Some(1))
  then have "length (removeAll c (unvisited st)) < length (unvisited st)"
    by (rule length_removeAll_less)
  then show "((g, visit g c st), (g, st)) \<in> measure (\<lambda>(g, st). length (unvisited st))"
    by (simp add: unvisited_visit)
qed

declare main_loop_exhaustive.simps [simp del]

definition dijkstra_exhaustive :: "graph \<Rightarrow> nat \<Rightarrow> nat \<Rightarrow> jsref list option option" where
  "dijkstra_exhaustive g startNodeId endNodeId =
     (let st = main_loop_exhaustive g (initialize g startNodeId)
      in case reconstruct (previous st) (NodeId endNodeId) [] of
           None \<Rightarrow> None
         | Some path \<Rightarrow> Some (if length path > 1 then Some path else None))"

section \<open>Neighbourhoods and the risk score (map.js, and the zone tables)\<close>

subsection \<open>The static tables\<close>

text \<open>
  \<open>neighborhoodSafetyFactors\<close> is an object from names to factors, an association
  list here; \<open>neighborhoodPolygons.features\<close> is an array of features, each with
  \<open>properties.name\<close> and \<open>geometry.coordinates\<close> (a list of rings of
  \<open>[lng, lat]\<close> positions).
\<close>

definition neighborhoodSafetyFactors :: "(string \<times> real) list" where
  "neighborhoodSafetyFactors =
     [(''Yale Campus'', 0.25),
      (''Westville'', 0.30),
      (''Wooster Square'', 0.32),
      (''East Rock'', 0.35),
      (''Downtown'', 1.0),
      (''The Hill'', 1.4),
      (''Fair Haven'', 1.5),
      (''Dwight'', 1.6),
      (''Newhallville'', 1.8),
      (''default'', 1.0)]"

type_synonym position = "real \<times> real"

record feature =
  feature_name :: string
  coordinates :: "position list list"

definition neighborhoodPolygons :: "feature list" where
  "neighborhoodPolygons =
     [\<lparr>feature_name = ''Yale Campus'', coordinates =
         [[(-72.9320, 41.3050), (-72.9320, 41.3110),
           (-72.9240, 41.3110), (-72.9240, 41.3050),
           (-72.9320, 41.3050)]]\<rparr>,
      \<lparr>feature_name = ''East Rock'', coordinates =
         [[(-72.9280, 41.3110), (-72.9280, 41.3180),
           (-72.9180, 41.3180), (-72.9180, 41.3110),
           (-72.9280, 41.3110)]]\<rparr>,
      \<lparr>feature_name = ''Westville'', coordinates =
         [[(-72.9450, 41.3050), (-72.9450, 41.3130),
           (-72.9320, 41.3130), (-72.9320, 41.3050),
           (-72.9450, 41.3050)]]\<rparr>,
      \<lparr>feature_name = ''Wooster Square'', coordinates =
         [[(-72.9200, 41.3020), (-72.9200, 41.3100),
           (-72.9100, 41.3100), (-72.9100, 41.3020),
           (-72.9200, 41.3020)]]\<rparr>,
      \<lparr>feature_name = ''The Hill'', coordinates =
         [[(-72.9400, 41.2980), (-72.9400, 41.3050),
           (-72.9280, 41.3050), (-72.9280, 41.2980),
           (-72.9400, 41.2980)]]\<rparr>,
      \<lparr>feature_name = ''Dwight'', coordinates =
         [[(-72.9500, 41.3050), (-72.9500, 41.3120),
           (-72.9450, 41.3120), (-72.9450, 41.3050),
           (-72.9500, 41.3050)]]\<rparr>,
      \<lparr>feature_name = ''Downtown'', coordinates =
         [[(-72.9320, 41.3050), (-72.9320, 41.3110),
           (-72.9240, 41.3110), (-72.9240, 41.3050),
           (-72.9320, 41.3050)]]\<rparr>]"

subsection \<open>\<open>getNeighborhoodForPoint\<close> (map.js, lines 38-49)\<close>

text \<open>
  The containment test \<open>turf.booleanPointInPolygon\<close> belongs to the Turf library,
  not to this program. It is a parameter \<open>pip\<close> of the model: any function from a
  position \<open>[lng, lat]\<close> and the rings of a polygon to a truth value. The loop
  returns the name of the first feature whose polygon holds the point.
\<close>

type_synonym point_in_polygon = "position \<Rightarrow> position list list \<Rightarrow> bool"

fun first_feature :: "point_in_polygon \<Rightarrow> position \<Rightarrow> feature list \<Rightarrow> string" where
  "first_feature pip pt [] = ''default''"
| "first_feature pip pt (f # fs) =
     (if pip pt (coordinates f) then feature_name f else first_feature pip pt fs)"

definition getNeighborhoodForPoint :: "point_in_polygon \<Rightarrow> real \<Rightarrow> real \<Rightarrow> string" where
  "getNeighborhoodForPoint pip lat1 lng1 = first_feature pip (lng1, lat1) neighborhoodPolygons"

subsection \<open>\<open>getCrimeLevel\<close> (map.js, lines 57-71)\<close>

text \<open>
  \<open>neighborhoodSafetyFactors[neighborhood] || neighborhoodSafetyFactors.default\<close>:
  the entry of the table when there is one and it is not zero, else the entry
  \<open>default\<close>, which the table gives as \<open>1.0\<close>.
\<close>

definition default_factor :: real where
  "default_factor = 1.0"

definition safeFactor_of :: "string \<Rightarrow> real" where
  "safeFactor_of nbhd =
     (case map_of neighborhoodSafetyFactors nbhd of
        Some f \<Rightarrow> if f \<noteq> 0 then f else default_factor
      | None \<Rightarrow> default_factor)"

definition getCrimeLevel :: "point_in_polygon \<Rightarrow> real \<Rightarrow> real \<Rightarrow> int" where
  "getCrimeLevel pip lat1 lng1 =
     (let nbhd = getNeighborhoodForPoint pip lat1 lng1;
          safeFactor = safeFactor_of nbhd;
          hash = \<bar>sin (lat1 * 1000) * cos (lng1 * 1000)\<bar>;
          pseudoRandom = hash - of_int \<lfloor>hash\<rfloor>;
          baseCrime = \<lfloor>pseudoRandom * 8 * safeFactor\<rfloor>
      in min 14 baseCrime)"

section \<open>Distances and the nearest node (map.js, lines 147-177)\<close>

text \<open>\<open>Math.atan2\<close> on the reals, by its usual case distinction.\<close>

definition atan2 :: "real \<Rightarrow> real \<Rightarrow> real" where
  "atan2 y x =
     (if 0 < x then arctan (y / x)
      else if x < 0 \<and> 0 \<le> y then arctan (y / x) + pi
      else if x < 0 then arctan (y / x) - pi
      else if 0 < y then pi / 2
      else if y < 0 then - pi / 2
      else 0)"

definition getDistance :: "real \<Rightarrow> real \<Rightarrow> real \<Rightarrow> real \<Rightarrow> real" where
  "getDistance lat1 lng1 lat2 lng2 =
     (let R = 6371;
          dLat = (lat2 - lat1) * pi / 180;
          dLng = (lng2 - lng1) * pi / 180;
          a = sin (dLat / 2) * sin (dLat / 2) +
              cos (lat1 * pi / 180) * cos (lat2 * pi / 180) *
              sin (dLng / 2) * sin (dLng / 2);
          c = 2 * atan2 (sqrt a) (sqrt (1 - a))
      in R * c)"

text \<open>
  The query point of \<open>findNearestNode\<close> comes from a click or from \<open>parseFloat\<close> of a
  geocoder answer, so its coordinates are JavaScript numbers that may be \<open>NaN\<close> or
  infinite. With such a coordinate every intermediate value of \<open>getDistance\<close> is
  \<open>NaN\<close> (a difference or product with \<open>NaN\<close>, or the sine or cosine of an infinite
  value), and so is its result. The coordinates of the nodes are finite. Rounding of
  doubles is not modelled.
\<close>

definition js_getDistance :: "jsnum \<Rightarrow> jsnum \<Rightarrow> real \<Rightarrow> real \<Rightarrow> jsnum" where
  "js_getDistance lat1 lng1 lat2 lng2 =
     (case (lat1, lng1) of
        (Num la, Num lo) \<Rightarrow> Num (getDistance la lo lat2 lng2)
      | _ \<Rightarrow> NaN)"

fun nearest_step :: "jsnum \<Rightarrow> jsnum \<Rightarrow> node \<Rightarrow> jsnum \<times> node option \<Rightarrow> jsnum \<times> node option" where
  "nearest_step lat1 lng1 n (minDist, nearestNode) =
     (let d = js_getDistance lat1 lng1 (lat n) (lng n)
      in if js_lt d minDist then (d, Some n) else (minDist, nearestNode))"

text \<open>The result \<open>None\<close> is the \<open>null\<close> that \<open>nearestNode\<close> starts with.\<close>

definition findNearestNode :: "graph \<Rightarrow> jsnum \<Rightarrow> jsnum \<Rightarrow> node option" where
  "findNearestNode g lat1 lng1 = snd (fold (nearest_step lat1 lng1) (nodes g) (Infinity, None))"

section \<open>The graph builder (map.js: \<open>loadStreetData\<close>, lines 219-286)\<close>

text \<open>
  The elements of the Overpass answer: a node with its identifier and coordinates, a
  way with its identifier, its list of node identifiers (empty when the field is
  missing) and the \<open>name\<close> tag when it has one, or anything else.
\<close>

datatype element =
    NodeElement nat real real
  | WayElement nat "nat list" "string option"
  | OtherElement

record way =
  way_id :: nat
  way_nodes :: "nat list"
  way_name :: "string option"

text \<open>First pass (lines 223-227): \<open>osmNodes[element.id] = { lat, lon }\<close>.\<close>

fun collect_node :: "element \<Rightarrow> (nat \<rightharpoonup> real \<times> real) \<Rightarrow> (nat \<rightharpoonup> real \<times> real)" where
  "collect_node (NodeElement i la lo) osmNodes = osmNodes(i \<mapsto> (la, lo))"
| "collect_node _ osmNodes = osmNodes"

text \<open>Second pass (lines 230-234): the ways of more than one node.\<close>

fun collect_way :: "element \<Rightarrow> way list \<Rightarrow> way list" where
  "collect_way (WayElement i ns nm) ways =
     (if length ns > 1 then ways @ [\<lparr>way_id = i, way_nodes = ns, way_name = nm\<rparr>] else ways)"
| "collect_way _ ways = ways"

text \<open>Creating the nodes (lines 237-254).\<close>

record bstate =
  graph_nodes :: "node list"
  nodeMap :: "nat \<rightharpoonup> nat"
  nodeIdCounter :: nat

definition add_node :: "(nat \<rightharpoonup> real \<times> real) \<Rightarrow> nat \<Rightarrow> bstate \<Rightarrow> bstate" where
  "add_node osmNodes osmNodeId bs =
     (case osmNodes osmNodeId of
        Some (la, lo) \<Rightarrow>
          if nodeMap bs osmNodeId = None then
            \<lparr>graph_nodes = graph_nodes bs @
               [\<lparr>node_id = nodeIdCounter bs, lat = la, lng = lo, osmId = osmNodeId\<rparr>],
             nodeMap = (nodeMap bs)(osmNodeId \<mapsto> nodeIdCounter bs),
             nodeIdCounter = nodeIdCounter bs + 1\<rparr>
          else bs
      | None \<Rightarrow> bs)"

definition create_nodes :: "(nat \<rightharpoonup> real \<times> real) \<Rightarrow> way list \<Rightarrow> bstate" where
  "create_nodes osmNodes ways =
     fold (\<lambda>w. fold (add_node osmNodes) (way_nodes w)) ways
       \<lparr>graph_nodes = [], nodeMap = Map.empty, nodeIdCounter = 0\<rparr>"

text \<open>
  Creating the edges (lines 257-286). \<open>graph.nodes[nodeMap.get(k)]\<close> is
  \<open>undefined\<close> when the key or the index is missing, and reading \<open>.lat\<close> of it
  throws; the exception is the value \<open>None\<close> (the \<open>catch\<close> block then reports
  an error and no graph is ready).
\<close>

definition nth_node :: "node list \<Rightarrow> nat \<Rightarrow> node option" where
  "nth_node ns i = (if i < length ns then Some (ns ! i) else None)"

definition street_name :: "way \<Rightarrow> string" where
  "street_name w =
     (case way_name w of Some nm \<Rightarrow> if nm \<noteq> [] then nm else ''Unnamed Street''
      | None \<Rightarrow> ''Unnamed Street'')"

definition add_edge ::
  "point_in_polygon \<Rightarrow> (nat \<rightharpoonup> real \<times> real) \<Rightarrow> bstate \<Rightarrow> way \<Rightarrow> nat
     \<Rightarrow> edge list option \<Rightarrow> edge list option" where
  "add_edge pip osmNodes bs w i acc =
     (case acc of
        None \<Rightarrow> None
      | Some es \<Rightarrow>
          (let fromOsmId = way_nodes w ! i; toOsmId = way_nodes w ! (i + 1)
           in if osmNodes fromOsmId = None \<or> osmNodes toOsmId = None then Some es
              else case (nodeMap bs fromOsmId, nodeMap bs toOsmId) of
                     (Some fromId, Some toId) \<Rightarrow>
                       (case (nth_node (graph_nodes bs) fromId, nth_node (graph_nodes bs) toId) of
                          (Some fromNode, Some toNode) \<Rightarrow>
                            (let midLat = (lat fromNode + lat toNode) / 2;
                                 midLng = (lng fromNode + lng toNode) / 2;
                                 crimes1 = getCrimeLevel pip midLat midLng;
                                 distance = getDistance (lat fromNode) (lng fromNode)
                                              (lat toNode) (lng toNode)
                             in Some (es @
                                  [\<lparr>from_node = fromId,
                                    to_node = toId,
                                    crimes = crimes1,
                                    weight = of_int crimes1 + distance * 100,
                                    wayId = way_id w,
                                    streetName = street_name w,
                                    neighborhood = getNeighborhoodForPoint pip midLat midLng\<rparr>]))
                        | _ \<Rightarrow> None)
                   | _ \<Rightarrow> None))"

definition create_edges ::
  "point_in_polygon \<Rightarrow> (nat \<rightharpoonup> real \<times> real) \<Rightarrow> bstate \<Rightarrow> way list \<Rightarrow> edge list option" where
  "create_edges pip osmNodes bs ways =
     fold (\<lambda>w. fold (add_edge pip osmNodes bs w) [0..<length (way_nodes w) - 1]) ways (Some [])"

definition build_graph ::
  "point_in_polygon \<Rightarrow> (nat \<rightharpoonup> real \<times> real) \<Rightarrow> way list \<Rightarrow> graph option" where
  "build_graph pip osmNodes ways =
     (let bs = create_nodes osmNodes ways
      in case create_edges pip osmNodes bs ways of
           None \<Rightarrow> None
         | Some es \<Rightarrow> Some \<lparr>nodes = graph_nodes bs, edges = es\<rparr>)"

definition loadStreetData :: "point_in_polygon \<Rightarrow> element list \<Rightarrow> graph option" where
  "loadStreetData pip elements =
     build_graph pip (fold collect_node elements Map.empty) (fold collect_way elements [])"

section \<open>Finding and summarising a route (routing.js: \<open>findSafestRoute\<close>)\<close>

text \<open>
  What the user sees is the outcome: one of the three alerts, or the route panel with
  its distance in miles, total crime score, number of segments and safety rating. A
  \<open>TypeError\<close> is the exception thrown by reading a field of \<open>null\<close> or
  \<open>undefined\<close>. The outer \<open>None\<close> of the result is a run that does not return.
\<close>

record summary =
  routeDistance :: real
  routeCrimeScore :: int
  routeSegments :: nat
  safetyRating :: string
  safetyColor :: string

datatype outcome = Alert string | RouteInfo summary | TypeError

definition node_at :: "graph \<Rightarrow> jsref \<Rightarrow> node option" where
  "node_at g r =
     (case r of NodeId i \<Rightarrow> if i < length (nodes g) then Some (nodes g ! i) else None
      | _ \<Rightarrow> None)"

definition find_edge :: "graph \<Rightarrow> jsref \<Rightarrow> jsref \<Rightarrow> edge option" where
  "find_edge g fromId toId =
     List.find (\<lambda>e. (NodeId (from_node e) = fromId \<and> NodeId (to_node e) = toId) \<or>
                     (NodeId (to_node e) = fromId \<and> NodeId (from_node e) = toId)) (edges g)"

text \<open>One round of the statistics loop (lines 128-145).\<close>

definition stats_step :: "graph \<Rightarrow> jsref list \<Rightarrow> nat \<Rightarrow> (int \<times> real) option \<Rightarrow> (int \<times> real) option" where
  "stats_step g path i acc =
     (case acc of
        None \<Rightarrow> None
      | Some (totalCrimes, totalDistance) \<Rightarrow>
          (let fromId = path ! i; toId = path ! (i + 1);
               totalCrimes1 = (case find_edge g fromId toId of
                                 Some e \<Rightarrow> totalCrimes + crimes e
                               | None \<Rightarrow> totalCrimes)
           in case (node_at g fromId, node_at g toId) of
                (Some fromNode, Some toNode) \<Rightarrow>
                  Some (totalCrimes1,
                        totalDistance + getDistance (lat fromNode) (lng fromNode)
                                          (lat toNode) (lng toNode))
              | _ \<Rightarrow> None))"

text \<open>The safety rating and its colour (lines 154-169).\<close>

definition safety_rating :: "real \<Rightarrow> string \<times> string" where
  "safety_rating avgCrimes =
     (if avgCrimes \<le> 2 then (''Very Safe'', ''#22c55e'')
      else if avgCrimes \<le> 5 then (''Safe'', ''#eab308'')
      else if avgCrimes \<le> 8 then (''Moderate'', ''#f97316'')
      else (''Caution Advised'', ''#ef4444''))"

text \<open>
  Lines 105-176, for a path that \<open>dijkstra\<close> returned: the coordinates of the route
  (reading every node of the path), the statistics loop and the rating.
\<close>

definition show_route :: "graph \<Rightarrow> jsref list \<Rightarrow> outcome" where
  "show_route g path =
     (if \<exists>r\<in>set path. node_at g r = None then TypeError
      else case fold (stats_step g path) [0..<length path - 1] (Some (0, 0)) of
             None \<Rightarrow> TypeError
           | Some (totalCrimes, totalDistance) \<Rightarrow>
               (let miles = totalDistance * 0.621371;
                    avgCrimes = of_int totalCrimes / real (length path - 1);
                    (rating, color) = safety_rating avgCrimes
                in RouteInfo \<lparr>routeDistance = miles, routeCrimeScore = totalCrimes,
                              routeSegments = length path - 1,
                              safetyRating = rating, safetyColor = color\<rparr>))"

definition findSafestRoute ::
  "graph \<Rightarrow> (jsnum \<times> jsnum) option \<Rightarrow> (jsnum \<times> jsnum) option \<Rightarrow> outcome option" where
  "findSafestRoute g startPoint endPoint =
     (case (startPoint, endPoint) of
        (Some (slat, slng), Some (elat, elng)) \<Rightarrow>
          if length (nodes g) = 0
          then Some (Alert ''Street data not loaded yet. Please wait...'')
          else (case (findNearestNode g slat slng, findNearestNode g elat elng) of
                  (Some startNode, Some endNode) \<Rightarrow>
                    (case dijkstra g (node_id startNode) (node_id endNode) of
                       None \<Rightarrow> None
                     | Some None \<Rightarrow> Some (Alert ''No route found!'')
                     | Some (Some path) \<Rightarrow> Some (show_route g path))
                | _ \<Rightarrow> Some TypeError)
      | _ \<Rightarrow> Some (Alert ''Please select both start and end points!''))"

section \<open>The Haversine formula\<close>

text \<open>
  The specification gives the length of an edge as the great-circle distance between
  its endpoints by the Haversine formula with an Earth radius of 6371 km. This is the
  formula in its usual form, written from the specification and not from the program:
  for latitudes \<open>phi1\<close>, \<open>phi2\<close> and a difference of longitude \<open>dlambda\<close> in radians,
  the distance is \<open>2 r arcsin (sqrt (hav (phi2 - phi1) + cos phi1 cos phi2 hav dlambda))\<close>,
  where \<open>hav x\<close> is the square of \<open>sin (x / 2)\<close>. Coordinates are in degrees.
\<close>

definition hav :: "real \<Rightarrow> real" where
  "hav x = (sin (x / 2))\<^sup>2"

definition haversine_km :: "real \<Rightarrow> real \<Rightarrow> real \<Rightarrow> real \<Rightarrow> real" where
  "haversine_km lat1 lng1 lat2 lng2 =
     (let phi1 = lat1 * pi / 180; phi2 = lat2 * pi / 180;
          dphi = phi2 - phi1; dlambda = lng2 * pi / 180 - lng1 * pi / 180
      in 2 * 6371 * arcsin (sqrt (hav dphi + cos phi1 * cos phi2 * hav dlambda)))"

section \<open>Notions used in the statements and proofs about the builder\<close>

text \<open>
  \<open>first_occurrences\<close> keeps the first occurrence of every element of a list, in
  order; \<open>resolved\<close> keeps the identifiers that the first pass found coordinates for.
\<close>

fun first_occurrences :: "'a list \<Rightarrow> 'a list" where
  "first_occurrences [] = []"
| "first_occurrences (x # xs) = x # filter (\<lambda>y. y \<noteq> x) (first_occurrences xs)"

definition resolved :: "(nat \<rightharpoonup> real \<times> real) \<Rightarrow> nat list \<Rightarrow> nat list" where
  "resolved osmNodes xs = filter (\<lambda>k. osmNodes k \<noteq> None) xs"

text \<open>
  The state of the builder after the node identifiers \<open>xs\<close> have been seen: the nodes
  are the first occurrences of the resolved identifiers, the counter is the number of
  nodes, the node at index \<open>i\<close> has identifier \<open>i\<close> and the coordinates of its OSM
  identifier, and \<open>nodeMap\<close> sends an OSM identifier to the index of its node.
\<close>

definition nodes_inv :: "(nat \<rightharpoonup> real \<times> real) \<Rightarrow> nat list \<Rightarrow> bstate \<Rightarrow> bool" where
  "nodes_inv osmNodes xs bs \<longleftrightarrow>
     map osmId (graph_nodes bs) = first_occurrences (resolved osmNodes xs) \<and>
     nodeIdCounter bs = length (graph_nodes bs) \<and>
     (\<forall>i<length (graph_nodes bs).
        node_id (graph_nodes bs ! i) = i \<and>
        osmNodes (osmId (graph_nodes bs ! i)) =
          Some (lat (graph_nodes bs ! i), lng (graph_nodes bs ! i))) \<and>
     (\<forall>k i. nodeMap bs k = Some i \<longleftrightarrow>
        i < length (graph_nodes bs) \<and> osmId (graph_nodes bs ! i) = k)"

text \<open>What \<open>add_edge\<close> stores for a pair of consecutive identifiers of a way.\<close>

definition edge_from :: "point_in_polygon \<Rightarrow> bstate \<Rightarrow> way \<Rightarrow> edge \<Rightarrow> bool" where
  "edge_from pip bs w e \<longleftrightarrow>
     (\<exists>i. Suc i < length (way_nodes w) \<and>
        nodeMap bs (way_nodes w ! i) = Some (from_node e) \<and>
        nodeMap bs (way_nodes w ! Suc i) = Some (to_node e)) \<and>
     from_node e < length (graph_nodes bs) \<and> to_node e < length (graph_nodes bs) \<and>
     (let a = graph_nodes bs ! from_node e; b = graph_nodes bs ! to_node e;
          midLat = (lat a + lat b) / 2; midLng = (lng a + lng b) / 2
      in crimes e = getCrimeLevel pip midLat midLng \<and>
         weight e = of_int (crimes e) + getDistance (lat a) (lng a) (lat b) (lng b) * 100 \<and>
         neighborhood e = getNeighborhoodForPoint pip midLat midLng) \<and>
     wayId e = way_id w \<and> streetName e = street_name w"

section \<open>Paths in a graph\<close>

text \<open>
  An edge joins its two endpoints in either direction. A path is a list of nodes of
  the graph together with the edges it takes, one between each two consecutive nodes;
  its weight is the sum of the weights of those edges.
\<close>

definition joins :: "edge \<Rightarrow> nat \<Rightarrow> nat \<Rightarrow> bool" where
  "joins e u v \<longleftrightarrow> (from_node e = u \<and> to_node e = v) \<or> (to_node e = u \<and> from_node e = v)"

fun walk :: "graph \<Rightarrow> nat list \<Rightarrow> edge list \<Rightarrow> bool" where
  "walk g [n] [] = (n \<in> node_ids g)"
| "walk g (u # v # ns) (e # es) =
     (u \<in> node_ids g \<and> e \<in> set (edges g) \<and> joins e u v \<and> walk g (v # ns) es)"
| "walk g _ _ = False"

definition total_weight :: "edge list \<Rightarrow> real" where
  "total_weight es = sum_list (map weight es)"

section \<open>Invariants of the solver\<close>

text \<open>Every stored predecessor is a node that has left \<open>unvisited\<close>.\<close>

definition pointers_visited :: "dstate \<Rightarrow> bool" where
  "pointers_visited st \<longleftrightarrow> (\<forall>n m. previous st n = NodeId m \<longrightarrow> m \<notin> set (unvisited st))"

text \<open>The nodes that have left \<open>unvisited\<close>.\<close>

definition visited :: "graph \<Rightarrow> dstate \<Rightarrow> nat set" where
  "visited g st = node_ids g - set (unvisited st)"

text \<open>
  The predecessor chain of a node: it starts at the start node, and every further node
  \<open>n\<close> has \<open>previous[n] = m\<close> for the node \<open>m\<close> before it, a node of \<open>F\<close>, joined
  to \<open>n\<close> by the edge listed.
\<close>

inductive chain :: "graph \<Rightarrow> (nat \<Rightarrow> jsref) \<Rightarrow> nat set \<Rightarrow> nat \<Rightarrow> nat \<Rightarrow> nat list \<Rightarrow> edge list \<Rightarrow> bool"
  for g :: graph and prev :: "nat \<Rightarrow> jsref" and F :: "nat set" and s :: nat where
  chain_start: "s \<in> node_ids g \<Longrightarrow> chain g prev F s s [s] []"
| chain_step: "chain g prev F s m ns es \<Longrightarrow> m \<in> F \<Longrightarrow> prev n = NodeId m \<Longrightarrow>
     e \<in> set (edges g) \<Longrightarrow> neighbor_of e m = Some n \<Longrightarrow> n \<in> node_ids g \<Longrightarrow>
     chain g prev F s n (ns @ [n]) (es @ [e])"

text \<open>
  The invariant of the main loop for the start node \<open>s\<close>: every node of finite
  distance has a predecessor chain of that weight; the distance of a visited node is
  at most that of an unvisited one; and every edge at a visited node has been relaxed.
\<close>

definition dinv :: "graph \<Rightarrow> nat \<Rightarrow> dstate \<Rightarrow> bool" where
  "dinv g s st \<longleftrightarrow>
     set (unvisited st) \<subseteq> node_ids g \<and>
     distances st s = Num 0 \<and>
     (s \<in> node_ids g \<longrightarrow> previous st s = Null) \<and>
     (\<forall>n. n \<notin> node_ids g \<longrightarrow> previous st n = Undefined) \<and>
     (\<forall>n\<in>node_ids g.
        (distances st n = Infinity \<and> previous st n = Null) \<or>
        (\<exists>ns es. chain g (previous st) (visited g st) s n ns es \<and>
                  distances st n = Num (total_weight es))) \<and>
     (\<forall>v\<in>visited g st. \<exists>d. distances st v = Num d) \<and>
     (\<forall>v\<in>visited g st. \<forall>u\<in>set (unvisited st). \<not> js_lt (distances st u) (distances st v)) \<and>
     (\<forall>v\<in>visited g st. \<forall>e\<in>set (edges g). \<forall>u\<in>node_ids g.
        neighbor_of e v = Some u \<longrightarrow>
        \<not> js_lt (js_add (distances st v) (weight e)) (distances st u)) \<and>
     (s \<in> set (unvisited st) \<longrightarrow> (\<forall>n\<in>node_ids g. n \<noteq> s \<longrightarrow> distances st n = Infinity))"

section \<open>Concrete inputs\<close>

text \<open>
  Three nodes \<open>0, 1, 2\<close>; edges \<open>0-1\<close> and \<open>1-2\<close> of weight 1, and a direct
  edge \<open>0-2\<close> of weight 5.
\<close>

definition mk_node :: "nat \<Rightarrow> node" where
  "mk_node i = \<lparr>node_id = i, lat = 0, lng = 0, osmId = i\<rparr>"

definition mk_edge :: "nat \<Rightarrow> nat \<Rightarrow> int \<Rightarrow> real \<Rightarrow> edge" where
  "mk_edge a b c w =
     \<lparr>from_node = a, to_node = b, crimes = c, weight = w, wayId = 0,
      streetName = ''Unnamed Street'', neighborhood = ''default''\<rparr>"

definition tri_graph :: graph where
  "tri_graph = \<lparr>nodes = [mk_node 0, mk_node 1, mk_node 2],
                 edges = [mk_edge 0 1 0 1, mk_edge 1 2 0 1, mk_edge 0 2 0 5]\<rparr>"

text \<open>
  A containment test for concrete runs: the bounding box of the first ring (for the
  axis-parallel rectangles of the zone table this is the rectangle itself).
\<close>

definition box_contains :: point_in_polygon where
  "box_contains pt rings =
     (case rings of
        [] \<Rightarrow> False
      | ring # _ \<Rightarrow>
          (\<exists>p\<in>set ring. fst p \<le> fst pt) \<and> (\<exists>p\<in>set ring. fst pt \<le> fst p) \<and>
          (\<exists>p\<in>set ring. snd p \<le> snd pt) \<and> (\<exists>p\<in>set ring. snd pt \<le> snd p))"

text \<open>Four nodes in a row, the three edges between them of risk 1, 4 and 10.\<close>

definition risk_graph :: graph where
  "risk_graph = \<lparr>nodes = [mk_node 0, mk_node 1, mk_node 2, mk_node 3],
                  edges = [mk_edge 0 1 1 1, mk_edge 1 2 4 4, mk_edge 2 3 10 10]\<rparr>"

text \<open>
  An Overpass answer with three nodes and two ways that close a triangle; and one
  whose only way names the same node twice in a row.
\<close>

definition example_elements :: "element list" where
  "example_elements =
     [NodeElement 10 41.306 (-72.930), NodeElement 20 41.308 (-72.928),
      NodeElement 30 41.310 (-72.926),
      WayElement 1 [10, 20, 30] (Some ''Elm Street''), WayElement 2 [30, 10] None]"

definition looped_elements :: "element list" where
  "looped_elements = [NodeElement 5 41.306 (-72.930), WayElement 1 [5, 5] None]"

text \<open>Three nodes and the single edge \<open>0-1\<close>: node 2 cannot be reached.\<close>

definition split_graph :: graph where
  "split_graph = \<lparr>nodes = [mk_node 0, mk_node 1, mk_node 2], edges = [mk_edge 0 1 0 1]\<rparr>"

section \<open>Properties of the solver\<close>

subsection \<open>The initial state\<close>

lemma fold_init_node:
  "set (unvisited (fold init_node ns st)) = set (unvisited st) \<union> node_id ` set ns"
  "distances (fold init_node ns st) k =
     (if k \<in> node_id ` set ns then Infinity else distances st k)"
  "previous (fold init_node ns st) k =
     (if k \<in> node_id ` set ns then Null else previous st k)"
  "distinct (unvisited st) \<Longrightarrow> distinct (unvisited (fold init_node ns st))"
  by (induction ns arbitrary: st) (auto simp: init_node_def set_add_def)

lemma initialize_unvisited:
  "set (unvisited (initialize g s)) = node_ids g" "distinct (unvisited (initialize g s))"
  by (simp_all add: initialize_def Let_def fold_init_node empty_state_def node_ids_def)

lemma initialize_distances:
  "distances (initialize g s) k =
     (if k = s then Num 0 else if k \<in> node_ids g then Infinity else NaN)"
  by (simp add: initialize_def Let_def fold_init_node empty_state_def node_ids_def)

lemma initialize_previous:
  "previous (initialize g s) k = (if k \<in> node_ids g then Null else Undefined)"
  by (simp add: initialize_def Let_def fold_init_node empty_state_def node_ids_def)

lemma find_min_initialize:
  assumes "s \<in> node_ids g"
  shows "find_min (distances (initialize g s)) (unvisited (initialize g s)) = Some s"
proof (cases "find_min (distances (initialize g s)) (unvisited (initialize g s))")
  case None
  from find_min_None[OF None] assms show ?thesis
    by (auto simp: initialize_unvisited initialize_distances)
next
  case (Some c)
  from find_min_Some(2)[OF Some] have "c = s"
    by (auto simp: initialize_distances js_lt_Infinity_iff split: if_splits)
  with Some show ?thesis by simp
qed

section \<open>Start equal to end\<close>

text \<open>
  Claim C2. For every graph and every identifier \<open>n\<close> of one of its nodes,
  \<open>dijkstra n n\<close> returns \<open>null\<close>: the first round selects \<open>n\<close> itself and
  leaves the loop, \<open>previous[n]\<close> is still \<open>null\<close>, and the one-element path is
  turned into \<open>null\<close> by the final test \<open>path.length > 1\<close>. That test also
  means that no call, whatever its arguments, returns a path of fewer than two
  entries. No assumption on the weights is needed.
\<close>

theorem dijkstra_same_node_null:
  "n \<in> node_ids g \<Longrightarrow>
     dijkstra g n n = Some None \<and> (\<forall>s t p. dijkstra g s t = Some (Some p) \<longrightarrow> 1 < length p)"
proof
  assume n: "n \<in> node_ids g"
  let ?st = "initialize g n"
  from n have "unvisited ?st \<noteq> []"
    using initialize_unvisited(1)[of g n] by auto
  then have "main_loop g n ?st = ?st"
    by (simp add: main_loop.simps[of g n ?st] find_min_initialize[OF n])
  moreover have "reconstruct (previous ?st) (NodeId n) [] = Some [NodeId n]"
    using n
    by (simp add: reconstruct.simps[of _ "NodeId n"] reconstruct.simps[of _ Null]
        lookup_previous_def initialize_previous)
  ultimately show "dijkstra g n n = Some None"
    by (simp add: dijkstra_def)
next
  show "\<forall>s t p. dijkstra g s t = Some (Some p) \<longrightarrow> 1 < length p"
    by (auto simp: dijkstra_def Let_def split: option.splits if_splits)
qed

theorem dijkstra_same_node_null_witness:
  "(1::nat) \<in> node_ids tri_graph \<and> dijkstra tri_graph 1 1 = Some None"
proof -
  have h: "(1::nat) \<in> node_ids tri_graph"
    by (simp add: node_ids_def tri_graph_def mk_node_def)
  from dijkstra_same_node_null[OF h] h show ?thesis by simp
qed


subsection \<open>Runs that do not return\<close>

lemma reconstruct_not_Undefined:
  assumes "reconstruct prev cur path = Some y"
  shows "cur \<noteq> Undefined"
proof (rule reconstruct.raw_induct[where P = "\<lambda>prev cur path y. cur \<noteq> Undefined", OF _ assms])
  fix f prev cur path y
  assume IH: "\<And>prev cur path y. f prev cur path = Some y \<Longrightarrow> cur \<noteq> Undefined"
    and b: "(if cur \<noteq> Null then f prev (lookup_previous prev cur) (cur # path) else Some path) = Some y"
  show "cur \<noteq> Undefined"
  proof
    assume u: "cur = Undefined"
    with b have "f prev Undefined (Undefined # path) = Some y"
      by (simp add: lookup_previous_def)
    from IH[OF this] show False by simp
  qed
qed

lemma reconstruct_Undefined: "reconstruct prev Undefined path = None"
  using reconstruct_not_Undefined[of prev Undefined path]
  by (cases "reconstruct prev Undefined path") auto

lemma reconstruct_absent:
  "prev t = Undefined \<Longrightarrow> reconstruct prev (NodeId t) path = None"
  by (simp add: reconstruct.simps[of _ "NodeId t"] lookup_previous_def reconstruct_Undefined)

lemma main_loop_empty: "unvisited st = [] \<Longrightarrow> main_loop g t st = st"
  by (simp add: main_loop.simps[of g t st])

lemma dijkstra_empty_graph:
  assumes "nodes g = []"
  shows "dijkstra g s t = None"
proof -
  from assms have n: "node_ids g = {}" by (simp add: node_ids_def)
  then have u: "unvisited (initialize g s) = []"
    using initialize_unvisited(1)[of g s] by simp
  have "previous (initialize g s) t = Undefined"
    using n by (simp add: initialize_previous)
  then have "reconstruct (previous (initialize g s)) (NodeId t) [] = None"
    by (rule reconstruct_absent)
  then show ?thesis by (simp add: dijkstra_def main_loop_empty[OF u])
qed

section \<open>The neighbourhood classifier and the risk score\<close>

text \<open>
  Claim C10. Whatever the containment test answers, \<open>getNeighborhoodForPoint\<close>
  never returns \<open>Downtown\<close>: the Downtown feature (the seventh of the table) has the
  very polygon of the Yale Campus feature (the first), and the loop returns at the
  first feature that holds the point. So a point inside the Downtown polygon is
  classified as \<open>Yale Campus\<close>.
\<close>

theorem downtown_never_returned:
  "getNeighborhoodForPoint pip lat1 lng1 \<noteq> ''Downtown'' \<and>
   feature_name (neighborhoodPolygons ! 0) = ''Yale Campus'' \<and>
   feature_name (neighborhoodPolygons ! 6) = ''Downtown'' \<and>
   coordinates (neighborhoodPolygons ! 6) = coordinates (neighborhoodPolygons ! 0) \<and>
   (pip (lng1, lat1) (coordinates (neighborhoodPolygons ! 6)) \<longrightarrow>
      getNeighborhoodForPoint pip lat1 lng1 = ''Yale Campus'')"
  by (simp add: getNeighborhoodForPoint_def neighborhoodPolygons_def)

theorem downtown_never_returned_witness:
  "box_contains (-72.9279, 41.3083) (coordinates (neighborhoodPolygons ! 6)) \<and>
   getNeighborhoodForPoint box_contains 41.3083 (-72.9279) = ''Yale Campus''"
proof -
  have h: "box_contains (-72.9279, 41.3083) (coordinates (neighborhoodPolygons ! 6))"
    by (simp add: box_contains_def neighborhoodPolygons_def)
  with downtown_never_returned[of box_contains "41.3083" "-72.9279"] show ?thesis
    by blast
qed

lemma default_factor_in_table:
  "map_of neighborhoodSafetyFactors ''default'' = Some default_factor"
  by (simp add: neighborhoodSafetyFactors_def default_factor_def)

lemma safeFactor_pos: "0 < safeFactor_of nb"
  by (simp add: safeFactor_of_def neighborhoodSafetyFactors_def default_factor_def)

text \<open>
  Claim C3. For all (finite) coordinates the score of \<open>getCrimeLevel\<close> is an integer
  between 0 and 14: the fraction \<open>pseudoRandom\<close> and every factor of the table are
  not negative, and \<open>Math.min(14, baseCrime)\<close> caps the result. The function reads
  only its arguments and the two constant tables and writes nothing, so the model is
  a function of the coordinates (and of the containment test it is given): equal
  inputs give equal scores.
\<close>

theorem getCrimeLevel_range:
  "0 \<le> getCrimeLevel pip lat1 lng1 \<and> getCrimeLevel pip lat1 lng1 \<le> 14"
proof -
  define h where "h = \<bar>sin (lat1 * 1000) * cos (lng1 * 1000)\<bar>"
  have "0 \<le> h - of_int \<lfloor>h\<rfloor>" by linarith
  then have "0 \<le> (h - of_int \<lfloor>h\<rfloor>) * 8 * safeFactor_of (getNeighborhoodForPoint pip lat1 lng1)"
    using safeFactor_pos[of "getNeighborhoodForPoint pip lat1 lng1"] by simp
  then show ?thesis
    by (simp add: getCrimeLevel_def Let_def h_def)
qed

section \<open>The route summary\<close>

lemma upt_3: "[0..<3] = [0, 1, 2]"
  by (simp add: upt_rec)

lemma show_route_rating:
  "show_route g path = RouteInfo s \<Longrightarrow>
     safetyRating s = fst (safety_rating (of_int (routeCrimeScore s) / real (routeSegments s)))"
  by (auto simp: show_route_def Let_def split: if_splits option.splits prod.splits)

text \<open>
  Claim C6. The safety rating is the four-tier step function of the mean risk per
  segment, each upper boundary inclusive: at most 2 is \<open>Very Safe\<close>, at most 5 is
  \<open>Safe\<close>, at most 8 is \<open>Moderate\<close>, anything above is \<open>Caution Advised\<close>; and the
  rating shown for a route is that function of the total crime score divided by the
  number of segments. On the path through three edges of risk 1, 4 and 10 the total
  is 15 over 3 segments, the mean is 5 and the rating is \<open>Safe\<close>.
\<close>

theorem safety_classification:
  "(avg \<le> 2 \<longrightarrow> fst (safety_rating avg) = ''Very Safe'') \<and>
   (2 < avg \<and> avg \<le> 5 \<longrightarrow> fst (safety_rating avg) = ''Safe'') \<and>
   (5 < avg \<and> avg \<le> 8 \<longrightarrow> fst (safety_rating avg) = ''Moderate'') \<and>
   (8 < avg \<longrightarrow> fst (safety_rating avg) = ''Caution Advised'') \<and>
   (show_route g path = RouteInfo s \<longrightarrow>
      safetyRating s = fst (safety_rating (of_int (routeCrimeScore s) / real (routeSegments s)))) \<and>
   (\<exists>r. show_route risk_graph [NodeId 0, NodeId 1, NodeId 2, NodeId 3] = RouteInfo r \<and>
        routeCrimeScore r = 15 \<and> routeSegments r = 3 \<and>
        of_int (routeCrimeScore r) / real (routeSegments r) = (5::real) \<and>
        safetyRating r = ''Safe'')"
proof -
  have "\<exists>r. show_route risk_graph [NodeId 0, NodeId 1, NodeId 2, NodeId 3] = RouteInfo r \<and>
        routeCrimeScore r = 15 \<and> routeSegments r = 3 \<and>
        of_int (routeCrimeScore r) / real (routeSegments r) = (5::real) \<and>
        safetyRating r = ''Safe''"
    by (simp add: show_route_def risk_graph_def node_at_def mk_node_def mk_edge_def
        stats_step_def find_edge_def Let_def upt_3 safety_rating_def)
  then show ?thesis
    using show_route_rating[of g path s] by (simp add: safety_rating_def)
qed

theorem safety_classification_witness:
  "(2::real) < 5 \<and> (5::real) \<le> 5 \<and> fst (safety_rating 5) = ''Safe'' \<and>
   fst (safety_rating 2) = ''Very Safe'' \<and> fst (safety_rating 8) = ''Moderate'' \<and>
   fst (safety_rating 9) = ''Caution Advised''"
  using safety_classification[of 5] safety_classification[of 2]
    safety_classification[of 8] safety_classification[of 9]
  by simp

section \<open>Queries against an empty graph\<close>

lemma findNearestNode_empty: "nodes g = [] \<Longrightarrow> findNearestNode g lat1 lng1 = None"
  by (simp add: findNearestNode_def)

lemma fold_nearest_NaN:
  "fold (nearest_step NaN lng1) ns acc = acc"
  by (induction ns arbitrary: acc) (auto simp: js_getDistance_def Let_def)

lemma findNearestNode_NaN: "findNearestNode g NaN lng1 = None"
  by (simp add: findNearestNode_def fold_nearest_NaN)

text \<open>
  Claim C7, as the code has it. Building from an empty list of ways gives the graph
  with no nodes and no edges. With both points chosen, \<open>findSafestRoute\<close> on a graph
  without nodes answers with the alert \<open>Street data not loaded yet. Please wait...\<close>,
  which is not the alert \<open>No route found!\<close> of a missing path; the test stands before
  the nearest nodes are looked up and before the solver is called, so the answer does
  not depend on either. \<open>findNearestNode\<close> on its own returns \<open>null\<close> on such a
  graph.
\<close>

theorem empty_graph_rejected:
  "build_graph pip osmNodes [] = Some \<lparr>nodes = [], edges = []\<rparr> \<and>
   (nodes g = [] \<longrightarrow>
      findSafestRoute g (Some a) (Some b) =
        Some (Alert ''Street data not loaded yet. Please wait...'') \<and>
      findNearestNode g lat1 lng1 = None) \<and>
   Alert ''Street data not loaded yet. Please wait...'' \<noteq> Alert ''No route found!''"
  by (auto simp: build_graph_def create_nodes_def create_edges_def findSafestRoute_def
      findNearestNode_empty split: prod.splits)

theorem empty_graph_rejected_witness:
  "nodes \<lparr>nodes = [], edges = []\<rparr> = [] \<and>
   findSafestRoute \<lparr>nodes = [], edges = []\<rparr>
       (Some (Num 41.3083, Num (-72.9279))) (Some (Num 41.31, Num (-72.92))) =
     Some (Alert ''Street data not loaded yet. Please wait...'') \<and>
   findNearestNode \<lparr>nodes = [], edges = []\<rparr> (Num 41.3083) (Num (-72.9279)) = None"
  using empty_graph_rejected[where g = "\<lparr>nodes = [], edges = []\<rparr>"
      and a = "(Num 41.3083, Num (-72.9279))" and b = "(Num 41.31, Num (-72.92))"
      and ?lat1.0 = "Num 41.3083" and ?lng1.0 = "Num (-72.9279)"]
  by simp

text \<open>
  The claim as stated fails for the two queries called on their own. On the graph
  without nodes \<open>dijkstra\<close> does not return at all, and \<open>findNearestNode\<close> returns
  the bare \<open>null\<close> that it also returns on a graph with nodes when a coordinate of the
  query is \<open>NaN\<close>: neither is an explicit failure that tells the empty graph apart.
\<close>

theorem empty_graph_queries_counterexample:
  "dijkstra \<lparr>nodes = [], edges = []\<rparr> 0 0 = None \<and>
   findNearestNode \<lparr>nodes = [], edges = []\<rparr> (Num 41.3083) (Num (-72.9279)) = None \<and>
   findNearestNode tri_graph NaN (Num (-72.9279)) = None"
  by (simp add: dijkstra_empty_graph findNearestNode_empty findNearestNode_NaN)

section \<open>Properties of the graph builder\<close>

lemma set_first_occurrences [simp]: "set (first_occurrences xs) = set xs"
  by (induction xs) auto

lemma distinct_first_occurrences [simp]: "distinct (first_occurrences xs)"
  by (induction xs) auto

lemma first_occurrences_snoc:
  "first_occurrences (xs @ [x]) =
     (if x \<in> set xs then first_occurrences xs else first_occurrences xs @ [x])"
  by (induction xs) auto

lemma fold_concat_map:
  "fold (\<lambda>w. fold f (h w)) ws s = fold f (concat (map h ws)) s"
  by (induction ws arbitrary: s) simp_all

lemma nodes_inv_map:
  assumes "nodes_inv osmNodes xs bs"
  shows "nodeMap bs k = Some i \<longleftrightarrow> i < length (graph_nodes bs) \<and> osmId (graph_nodes bs ! i) = k"
  using assms by (simp add: nodes_inv_def)

lemma nodes_inv_dom:
  assumes "nodes_inv osmNodes xs bs"
  shows "nodeMap bs k = None \<longleftrightarrow> k \<notin> set (resolved osmNodes xs)"
proof -
  have "map osmId (graph_nodes bs) = first_occurrences (resolved osmNodes xs)"
    using assms by (simp add: nodes_inv_def)
  then have "set (resolved osmNodes xs) = set (map osmId (graph_nodes bs))"
    by simp
  then have "k \<in> set (resolved osmNodes xs) \<longleftrightarrow> k \<in> set (map osmId (graph_nodes bs))"
    by simp
  also have "\<dots> \<longleftrightarrow> (\<exists>i<length (graph_nodes bs). osmId (graph_nodes bs ! i) = k)"
    unfolding in_set_conv_nth by auto
  also have "\<dots> \<longleftrightarrow> (\<exists>i. nodeMap bs k = Some i)"
    using nodes_inv_map[OF assms] by simp
  finally show ?thesis by auto
qed

lemma nodes_inv_add:
  assumes "nodes_inv osmNodes xs bs"
  shows "nodes_inv osmNodes (xs @ [x]) (add_node osmNodes x bs)"
proof (cases "osmNodes x")
  case None
  with assms show ?thesis by (simp add: add_node_def nodes_inv_def resolved_def)
next
  case (Some c)
  obtain la lo where c: "c = (la, lo)" by (cases c)
  show ?thesis
  proof (cases "nodeMap bs x = None")
    case False
    then have "x \<in> set (resolved osmNodes xs)" using nodes_inv_dom[OF assms] by simp
    with assms Some c False show ?thesis
      by (simp add: add_node_def nodes_inv_def resolved_def first_occurrences_snoc)
  next
    case True
    then have nx: "x \<notin> set (resolved osmNodes xs)" using nodes_inv_dom[OF assms] by simp
    have r: "resolved osmNodes (xs @ [x]) = resolved osmNodes xs @ [x]"
      using Some by (simp add: resolved_def)
    let ?n = "length (graph_nodes bs)"
    have nomatch: "\<forall>i<?n. osmId (graph_nodes bs ! i) \<noteq> x"
      using nodes_inv_map[OF assms, of x] True by auto
    have eq: "add_node osmNodes x bs =
      \<lparr>graph_nodes = graph_nodes bs @ [\<lparr>node_id = ?n, lat = la, lng = lo, osmId = x\<rparr>],
       nodeMap = (nodeMap bs)(x \<mapsto> ?n), nodeIdCounter = ?n + 1\<rparr>"
      using Some c True assms by (simp add: add_node_def nodes_inv_def)
    show ?thesis
      unfolding eq nodes_inv_def
    proof (intro conjI)
      show "map osmId (graph_nodes \<lparr>graph_nodes = graph_nodes bs @ [\<lparr>node_id = ?n, lat = la, lng = lo, osmId = x\<rparr>],
       nodeMap = (nodeMap bs)(x \<mapsto> ?n), nodeIdCounter = ?n + 1\<rparr>) = first_occurrences (resolved osmNodes (xs @ [x]))"
        using assms nx by (simp add: r first_occurrences_snoc nodes_inv_def)
    qed (use assms Some c nomatch in \<open>auto simp: nodes_inv_def nth_append less_Suc_eq\<close>)
  qed
qed

lemma nodes_inv_fold:
  "nodes_inv osmNodes xs bs \<Longrightarrow> nodes_inv osmNodes (xs @ ys) (fold (add_node osmNodes) ys bs)"
proof (induction ys arbitrary: xs bs)
  case Nil
  then show ?case by simp
next
  case (Cons y ys)
  from Cons.IH[OF nodes_inv_add[OF Cons.prems, of y]] show ?case by simp
qed

lemma nodes_inv_create:
  "nodes_inv osmNodes (concat (map way_nodes ways)) (create_nodes osmNodes ways)"
proof -
  have "nodes_inv osmNodes [] \<lparr>graph_nodes = [], nodeMap = Map.empty, nodeIdCounter = 0\<rparr>"
    by (simp add: nodes_inv_def resolved_def)
  from nodes_inv_fold[OF this] show ?thesis
    by (simp add: create_nodes_def fold_concat_map)
qed

lemma add_edge_step:
  assumes inv: "nodes_inv osmNodes xs bs" and sub: "set (way_nodes w) \<subseteq> set xs"
    and i: "Suc i < length (way_nodes w)"
  shows "\<exists>es'. add_edge pip osmNodes bs w i (Some es) = Some es' \<and>
           (es' = es \<or> (\<exists>e. es' = es @ [e] \<and> edge_from pip bs w e))"
proof (cases "osmNodes (way_nodes w ! i) = None \<or> osmNodes (way_nodes w ! Suc i) = None")
  case True
  then show ?thesis by (auto simp: add_edge_def)
next
  case False
  let ?a = "way_nodes w ! i" and ?b = "way_nodes w ! Suc i"
  from i sub have "?a \<in> set xs" "?b \<in> set xs" by (auto simp: subset_iff)
  with False have "?a \<in> set (resolved osmNodes xs)" "?b \<in> set (resolved osmNodes xs)"
    by (simp_all add: resolved_def)
  then obtain fa fb where f: "nodeMap bs ?a = Some fa" "nodeMap bs ?b = Some fb"
    using nodes_inv_dom[OF inv] by (metis not_Some_eq)
  then have lt: "fa < length (graph_nodes bs)" "fb < length (graph_nodes bs)"
    using nodes_inv_map[OF inv] by blast+
  from False f lt i show ?thesis
    by (simp add: add_edge_def nth_node_def Let_def edge_from_def) blast
qed

lemma fold_add_edge:
  assumes inv: "nodes_inv osmNodes xs bs" and sub: "set (way_nodes w) \<subseteq> set xs"
  shows "\<forall>i\<in>set is. Suc i < length (way_nodes w) \<Longrightarrow>
     \<exists>es'. fold (add_edge pip osmNodes bs w) is (Some es) = Some es' \<and>
       set es' \<subseteq> set es \<union> {e. edge_from pip bs w e}"
proof (induction "is" arbitrary: es)
  case Nil
  then show ?case by simp
next
  case (Cons i "is")
  from Cons.prems have "Suc i < length (way_nodes w)" by simp
  from add_edge_step[OF inv sub this, of pip es]
  obtain es1 where 1: "add_edge pip osmNodes bs w i (Some es) = Some es1"
    and 2: "set es1 \<subseteq> set es \<union> {e. edge_from pip bs w e}" by auto
  from Cons.IH[of es1] Cons.prems
  obtain es' where "fold (add_edge pip osmNodes bs w) is (Some es1) = Some es'"
    and "set es' \<subseteq> set es1 \<union> {e. edge_from pip bs w e}" by auto
  with 1 2 show ?case by auto
qed

lemma fold_ways_edges:
  assumes inv: "nodes_inv osmNodes xs bs"
  shows "\<forall>w\<in>set ways. set (way_nodes w) \<subseteq> set xs \<Longrightarrow>
     \<exists>es'. fold (\<lambda>w. fold (add_edge pip osmNodes bs w) [0..<length (way_nodes w) - 1]) ways (Some es)
            = Some es' \<and>
       set es' \<subseteq> set es \<union> {e. \<exists>w\<in>set ways. edge_from pip bs w e}"
proof (induction ways arbitrary: es)
  case Nil
  then show ?case by simp
next
  case (Cons w ways)
  from Cons.prems have sub: "set (way_nodes w) \<subseteq> set xs" by simp
  have "\<forall>i\<in>set [0..<length (way_nodes w) - 1]. Suc i < length (way_nodes w)" by auto
  from fold_add_edge[OF inv sub this, of pip es]
  obtain es1 where 1: "fold (add_edge pip osmNodes bs w) [0..<length (way_nodes w) - 1] (Some es) = Some es1"
    and 2: "set es1 \<subseteq> set es \<union> {e. edge_from pip bs w e}" by auto
  from Cons.IH[of es1] Cons.prems
  obtain es' where "fold (\<lambda>w. fold (add_edge pip osmNodes bs w) [0..<length (way_nodes w) - 1]) ways (Some es1) = Some es'"
    and "set es' \<subseteq> set es1 \<union> {e. \<exists>w\<in>set ways. edge_from pip bs w e}" by auto
  with 1 2 show ?case by auto
qed

lemma build_graph_Some:
  "\<exists>es. build_graph pip osmNodes ways = Some \<lparr>nodes = graph_nodes (create_nodes osmNodes ways), edges = es\<rparr> \<and>
     (\<forall>e\<in>set es. \<exists>w\<in>set ways. edge_from pip (create_nodes osmNodes ways) w e)"
proof -
  have "\<forall>w\<in>set ways. set (way_nodes w) \<subseteq> set (concat (map way_nodes ways))" by auto
  from fold_ways_edges[OF nodes_inv_create[of osmNodes ways] this, where pip = pip and es = "[]"]
  show ?thesis by (auto simp: build_graph_def create_edges_def Let_def)
qed

lemma upt_2: "[0..<2] = [0, 1]"
  by (simp add: upt_rec)

lemma example_build:
  "\<exists>g. loadStreetData box_contains example_elements = Some g \<and>
     nodes g = [\<lparr>node_id = 0, lat = 41.306, lng = -72.930, osmId = 10\<rparr>,
                \<lparr>node_id = 1, lat = 41.308, lng = -72.928, osmId = 20\<rparr>,
                \<lparr>node_id = 2, lat = 41.310, lng = -72.926, osmId = 30\<rparr>] \<and>
     map from_node (edges g) = [0, 1, 2] \<and> map to_node (edges g) = [1, 2, 0]"
  by (simp add: loadStreetData_def example_elements_def build_graph_def create_nodes_def
      create_edges_def add_node_def add_edge_def nth_node_def Let_def upt_2)

lemma build_graph_nodes:
  assumes "build_graph pip osmNodes ways = Some g"
  shows "nodes g = graph_nodes (create_nodes osmNodes ways)"
    and "e \<in> set (edges g) \<Longrightarrow> \<exists>w\<in>set ways. edge_from pip (create_nodes osmNodes ways) w e"
  using build_graph_Some[of pip osmNodes ways] assms by auto

lemma nodes_inv_ids:
  assumes "nodes_inv osmNodes xs bs" and "i < length (graph_nodes bs)"
  shows "i \<in> node_id ` set (graph_nodes bs)"
proof -
  from assms have "node_id (graph_nodes bs ! i) = i" by (simp add: nodes_inv_def)
  moreover from assms(2) have "graph_nodes bs ! i \<in> set (graph_nodes bs)" by simp
  ultimately show ?thesis by force
qed

lemma example_edge:
  obtains g e where "build_graph box_contains (fold collect_node example_elements Map.empty)
                       (fold collect_way example_elements []) = Some g"
    and "e \<in> set (edges g)" and "from_node e = 0" and "to_node e = 1"
    and "nodes g = [\<lparr>node_id = 0, lat = 41.306, lng = -72.930, osmId = 10\<rparr>,
                     \<lparr>node_id = 1, lat = 41.308, lng = -72.928, osmId = 20\<rparr>,
                     \<lparr>node_id = 2, lat = 41.310, lng = -72.926, osmId = 30\<rparr>]"
proof -
  from example_build obtain g where g: "loadStreetData box_contains example_elements = Some g"
    and n: "nodes g = [\<lparr>node_id = 0, lat = 41.306, lng = -72.930, osmId = 10\<rparr>,
                       \<lparr>node_id = 1, lat = 41.308, lng = -72.928, osmId = 20\<rparr>,
                       \<lparr>node_id = 2, lat = 41.310, lng = -72.926, osmId = 30\<rparr>]"
    and f: "map from_node (edges g) = [0, 1, 2]" and t: "map to_node (edges g) = [1, 2, 0]"
    by (elim exE conjE)
  from f obtain e es where es: "edges g = e # es" by (cases "edges g") auto
  with f t have "from_node e = 0" "to_node e = 1" "e \<in> set (edges g)" by auto
  with g n that show thesis by (simp add: loadStreetData_def)
qed

text \<open>
  Claim C9. The builder never throws, and the nodes of the graph it returns are the
  first occurrences, in the order of the ways and of the identifiers inside each way,
  of the OSM identifiers that resolve to a coordinate (an identifier without a node
  element has no coordinate and gets no node): no two nodes share an OSM identifier,
  the node at index \<open>i\<close> has identifier \<open>i\<close>, and it carries the coordinates of
  its OSM identifier. When every identifier of the ways resolves, the nodes are the
  first occurrences of all of them.
\<close>

theorem one_node_per_source_id:
  "\<exists>g. build_graph pip osmNodes ways = Some g \<and>
     map osmId (nodes g) = first_occurrences (resolved osmNodes (concat (map way_nodes ways))) \<and>
     distinct (map osmId (nodes g)) \<and>
     (\<forall>i<length (nodes g).
        node_id (nodes g ! i) = i \<and>
        osmNodes (osmId (nodes g ! i)) = Some (lat (nodes g ! i), lng (nodes g ! i))) \<and>
     ((\<forall>k\<in>set (concat (map way_nodes ways)). osmNodes k \<noteq> None) \<longrightarrow>
        map osmId (nodes g) = first_occurrences (concat (map way_nodes ways)))"
proof -
  obtain g where g: "build_graph pip osmNodes ways = Some g"
    using build_graph_Some[of pip osmNodes ways] by blast
  have n: "nodes g = graph_nodes (create_nodes osmNodes ways)"
    by (rule build_graph_nodes(1)[OF g])
  have inv: "nodes_inv osmNodes (concat (map way_nodes ways)) (create_nodes osmNodes ways)"
    by (rule nodes_inv_create)
  have m: "map osmId (nodes g) = first_occurrences (resolved osmNodes (concat (map way_nodes ways)))"
    using inv n by (simp add: nodes_inv_def)
  have d: "distinct (map osmId (nodes g))"
    unfolding m by simp
  have r: "resolved osmNodes (concat (map way_nodes ways)) = concat (map way_nodes ways)"
    if "\<forall>k\<in>set (concat (map way_nodes ways)). osmNodes k \<noteq> None"
    unfolding resolved_def using that by (intro filter_True) blast
  have i: "\<forall>i<length (nodes g).
        node_id (nodes g ! i) = i \<and>
        osmNodes (osmId (nodes g ! i)) = Some (lat (nodes g ! i), lng (nodes g ! i))"
    using inv n by (simp add: nodes_inv_def)
  from g m d i r show ?thesis
    by (intro exI[of _ g] conjI impI) simp_all
qed

theorem one_node_per_source_id_witness:
  "set (concat (map way_nodes (fold collect_way example_elements [])))
     \<subseteq> dom (fold collect_node example_elements Map.empty) \<and>
   (\<exists>g. loadStreetData box_contains example_elements = Some g \<and>
      map osmId (nodes g) = [10, 20, 30] \<and> map node_id (nodes g) = [0, 1, 2])"
proof -
  let ?osm = "fold collect_node example_elements Map.empty"
  let ?ways = "fold collect_way example_elements []"
  have h: "\<forall>k\<in>set (concat (map way_nodes ?ways)). ?osm k \<noteq> None"
    by (simp add: example_elements_def del: not_None_eq)
  from one_node_per_source_id[of box_contains ?osm ?ways] h
  obtain g where g: "build_graph box_contains ?osm ?ways = Some g"
    and m: "map osmId (nodes g) = first_occurrences (concat (map way_nodes ?ways))"
    and i: "\<forall>i<length (nodes g). node_id (nodes g ! i) = i"
    by blast
  have "first_occurrences (concat (map way_nodes ?ways)) = [10, 20, 30]"
    by (simp add: example_elements_def)
  with m have o: "map osmId (nodes g) = [10, 20, 30]" by simp
  then have l: "length (nodes g) = 3"
    by (metis length_map length_Cons list.size(3) numeral_3_eq_3)
  have "map node_id (nodes g) = [0, 1, 2]"
  proof (rule nth_equalityI)
    show "length (map node_id (nodes g)) = length [0, 1, 2::nat]" using l by simp
  next
    fix k assume "k < length (map node_id (nodes g))"
    then have k: "k < 3" using l by simp
    then have "node_id (nodes g ! k) = k" using i l by simp
    moreover from k have "k = 0 \<or> k = 1 \<or> k = 2" by auto
    ultimately show "map node_id (nodes g) ! k = [0, 1, 2] ! k" using k l by auto
  qed
  moreover from h have "set (concat (map way_nodes ?ways)) \<subseteq> dom ?osm"
    unfolding dom_def by blast
  ultimately show ?thesis using g o by (simp add: loadStreetData_def)
qed

text \<open>
  Claim C5, as the code has it. Both endpoints of every edge are identifiers of nodes
  of the graph (and indices into \<open>graph.nodes\<close>). The endpoints are distinct when
  no way names the same node twice in a row; the builder has no test for that, and a
  way that does so gives an edge from a node to itself.
\<close>

theorem edges_join_existing_nodes:
  "build_graph pip osmNodes ways = Some g \<Longrightarrow> e \<in> set (edges g) \<Longrightarrow>
     from_node e \<in> node_ids g \<and> to_node e \<in> node_ids g \<and>
     from_node e < length (nodes g) \<and> to_node e < length (nodes g) \<and>
     ((\<forall>w\<in>set ways. distinct_adj (way_nodes w)) \<longrightarrow> from_node e \<noteq> to_node e)"
proof -
  assume g: "build_graph pip osmNodes ways = Some g" and e: "e \<in> set (edges g)"
  let ?bs = "create_nodes osmNodes ways"
  have n: "nodes g = graph_nodes ?bs" by (rule build_graph_nodes(1)[OF g])
  have inv: "nodes_inv osmNodes (concat (map way_nodes ways)) ?bs" by (rule nodes_inv_create)
  from build_graph_nodes(2)[OF g e] obtain w where w: "w \<in> set ways" and ef: "edge_from pip ?bs w e"
    by blast
  from ef obtain i where i: "Suc i < length (way_nodes w)"
    and f: "nodeMap ?bs (way_nodes w ! i) = Some (from_node e)"
    and t: "nodeMap ?bs (way_nodes w ! Suc i) = Some (to_node e)"
    and lt: "from_node e < length (graph_nodes ?bs)" "to_node e < length (graph_nodes ?bs)"
    by (auto simp: edge_from_def)
  have ids: "from_node e \<in> node_ids g" "to_node e \<in> node_ids g"
    using nodes_inv_ids[OF inv] lt n by (simp_all add: node_ids_def)
  have "from_node e \<noteq> to_node e" if d: "\<forall>w\<in>set ways. distinct_adj (way_nodes w)"
  proof
    assume eq: "from_node e = to_node e"
    from f have "osmId (graph_nodes ?bs ! from_node e) = way_nodes w ! i"
      using nodes_inv_map[OF inv] by blast
    moreover from t have "osmId (graph_nodes ?bs ! to_node e) = way_nodes w ! Suc i"
      using nodes_inv_map[OF inv] by blast
    ultimately have "way_nodes w ! i = way_nodes w ! Suc i" using eq by simp
    moreover from d w have "distinct_adj (way_nodes w)" by blast
    ultimately show False using i by (simp add: distinct_adj_conv_nth)
  qed
  with ids lt n show ?thesis by simp
qed

theorem edges_join_existing_nodes_witness:
  "\<exists>g e. loadStreetData box_contains example_elements = Some g \<and> e \<in> set (edges g) \<and>
     from_node e \<in> node_ids g \<and> to_node e \<in> node_ids g \<and> from_node e \<noteq> to_node e"
proof -
  let ?osm = "fold collect_node example_elements Map.empty"
  let ?ways = "fold collect_way example_elements []"
  obtain g e where g: "build_graph box_contains ?osm ?ways = Some g" and e: "e \<in> set (edges g)"
    by (rule example_edge)
  have d: "\<forall>w\<in>set ?ways. distinct_adj (way_nodes w)"
    by (simp add: example_elements_def)
  from edges_join_existing_nodes[OF g e] d g e show ?thesis
    by (auto simp: loadStreetData_def)
qed

text \<open>
  The claim as stated fails: the way \<open>[5, 5]\<close> gives one edge, from node 0 to node 0.
\<close>

theorem self_loop_edge_counterexample:
  "map_option (map from_node \<circ> edges) (loadStreetData box_contains looped_elements) = Some [0] \<and>
   map_option (map to_node \<circ> edges) (loadStreetData box_contains looped_elements) = Some [0]"
  by (simp add: loadStreetData_def looped_elements_def build_graph_def create_nodes_def
      create_edges_def add_node_def add_edge_def nth_node_def Let_def)

subsection \<open>The length of an edge\<close>

lemma hav_eq: "hav x = (1 - cos x) / 2"
  using cos_double_sin[of "x / 2"] by (simp add: hav_def)

lemma hav_range: "0 \<le> hav x" "hav x \<le> 1"
  using sin_le_one[of "x / 2"] sin_ge_minus_one[of "x / 2"]
  by (simp_all add: hav_def abs_square_le_1 abs_le_iff)

text \<open>The argument of the square root lies between 0 and 1, for all angles.\<close>

lemma haversine_arg_range:
  "0 \<le> hav (p2 - p1) + cos p1 * cos p2 * hav l"
  "hav (p2 - p1) + cos p1 * cos p2 * hav l \<le> 1"
proof -
  define s where "s = hav l"
  define c where "c = cos (p1 - p2)"
  define c' where "c' = cos (p1 + p2)"
  have s: "0 \<le> s" "s \<le> 1" by (simp_all add: s_def hav_range)
  have c: "- 1 \<le> c" "c \<le> 1" "- 1 \<le> c'" "c' \<le> 1" by (simp_all add: c_def c'_def)
  have h: "hav (p2 - p1) = (1 - c) / 2"
    using cos_minus[of "p1 - p2"] by (simp add: hav_eq c_def)
  have cc: "cos p1 * cos p2 = (c + c') / 2"
    by (simp add: cos_times_cos c_def c'_def)
  have e: "hav (p2 - p1) + cos p1 * cos p2 * hav l = (1 - c * (1 - s) + s * c') / 2"
    unfolding h cc s_def[symmetric] by (simp add: field_simps)
  have 1: "c * (1 - s) \<le> 1 - s"
    using mult_right_mono[of c 1 "1 - s"] c s by simp
  have 2: "- (1 - s) \<le> c * (1 - s)"
    using mult_right_mono[of "- 1" c "1 - s"] c s by simp
  have 3: "s * c' \<le> s"
    using mult_left_mono[of c' 1 s] c s by simp
  have 4: "- s \<le> s * c'"
    using mult_left_mono[of "- 1" c' s] c s by simp
  show "0 \<le> hav (p2 - p1) + cos p1 * cos p2 * hav l" unfolding e using 1 4 by simp
  show "hav (p2 - p1) + cos p1 * cos p2 * hav l \<le> 1" unfolding e using 2 3 by simp
qed

text \<open>
  On such an argument \<open>Math.atan2(Math.sqrt(a), Math.sqrt(1 - a))\<close> is the arc sine
  of \<open>sqrt a\<close>.
\<close>

lemma atan2_sqrt:
  assumes "0 \<le> a" "a \<le> 1"
  shows "atan2 (sqrt a) (sqrt (1 - a)) = arcsin (sqrt a)"
proof (cases "a = 1")
  case True
  then show ?thesis by (simp add: atan2_def)
next
  case False
  with assms have a: "a < 1" by simp
  then have p: "0 < sqrt (1 - a)" by simp
  have "sqrt a < 1" using a by simp
  moreover have "- 1 < sqrt a" using real_sqrt_ge_zero[OF assms(1)] by linarith
  ultimately have "arcsin (sqrt a) = arctan (sqrt a / sqrt (1 - (sqrt a)\<^sup>2))"
    by (intro arcsin_arctan)
  with assms p show ?thesis by (simp add: atan2_def)
qed

lemma getDistance_haversine:
  "getDistance lat1 lng1 lat2 lng2 = haversine_km lat1 lng1 lat2 lng2"
proof -
  let ?p1 = "lat1 * pi / 180" and ?p2 = "lat2 * pi / 180"
  let ?l = "lng2 * pi / 180 - lng1 * pi / 180"
  let ?a = "hav (?p2 - ?p1) + cos ?p1 * cos ?p2 * hav ?l"
  have d1: "(lat2 - lat1) * pi / 180 = ?p2 - ?p1" by (simp add: algebra_simps diff_divide_distrib)
  have d2: "(lng2 - lng1) * pi / 180 = ?l" by (simp add: algebra_simps diff_divide_distrib)
  have a: "sin ((lat2 - lat1) * pi / 180 / 2) * sin ((lat2 - lat1) * pi / 180 / 2) +
        cos ?p1 * cos ?p2 * sin ((lng2 - lng1) * pi / 180 / 2) * sin ((lng2 - lng1) * pi / 180 / 2) = ?a"
    unfolding d1 d2 by (simp add: hav_def power2_eq_square)
  have "getDistance lat1 lng1 lat2 lng2 = 6371 * (2 * atan2 (sqrt ?a) (sqrt (1 - ?a)))"
    unfolding getDistance_def Let_def a ..
  also have "\<dots> = 6371 * (2 * arcsin (sqrt ?a))"
    using atan2_sqrt[OF haversine_arg_range] by simp
  finally show ?thesis by (simp add: haversine_km_def Let_def)
qed

text \<open>
  The formula is not trivial: it is never negative, at most half the circumference,
  and half the circumference between two opposite points of the equator.
\<close>

lemma haversine_km_range:
  "0 \<le> haversine_km lat1 lng1 lat2 lng2" "haversine_km lat1 lng1 lat2 lng2 \<le> 6371 * pi"
proof -
  let ?p1 = "lat1 * pi / 180" and ?p2 = "lat2 * pi / 180"
  let ?l = "lng2 * pi / 180 - lng1 * pi / 180"
  let ?a = "hav (?p2 - ?p1) + cos ?p1 * cos ?p2 * hav ?l"
  have r: "0 \<le> sqrt ?a" "sqrt ?a \<le> 1" using haversine_arg_range[of ?p2 ?p1 ?l] by simp_all
  then have "0 \<le> arcsin (sqrt ?a)" by (intro arcsin_nonneg) simp
  moreover have "arcsin (sqrt ?a) \<le> pi / 2" using r by (intro arcsin_ubound) linarith+
  ultimately show "0 \<le> haversine_km lat1 lng1 lat2 lng2"
    "haversine_km lat1 lng1 lat2 lng2 \<le> 6371 * pi"
    by (simp_all add: haversine_km_def Let_def)
qed

lemma haversine_km_half_turn: "haversine_km 0 0 0 180 = 6371 * pi"
  by (simp add: haversine_km_def hav_def)

text \<open>
  Claim C4. Every edge of a built graph has as weight its risk score plus 100 times
  its length, the Haversine distance in kilometres between its two endpoint nodes:
  \<open>getDistance\<close>, which the builder calls, computes exactly the Haversine formula.
  The risk score is \<open>getCrimeLevel\<close> at the midpoint of the endpoints.
\<close>

theorem edge_weight_formula:
  "build_graph pip osmNodes ways = Some g \<Longrightarrow> e \<in> set (edges g) \<Longrightarrow>
     from_node e < length (nodes g) \<and> to_node e < length (nodes g) \<and>
     crimes e = getCrimeLevel pip
       ((lat (nodes g ! from_node e) + lat (nodes g ! to_node e)) / 2)
       ((lng (nodes g ! from_node e) + lng (nodes g ! to_node e)) / 2) \<and>
     weight e = of_int (crimes e) +
       getDistance (lat (nodes g ! from_node e)) (lng (nodes g ! from_node e))
                   (lat (nodes g ! to_node e)) (lng (nodes g ! to_node e)) * 100 \<and>
     weight e = of_int (crimes e) +
       haversine_km (lat (nodes g ! from_node e)) (lng (nodes g ! from_node e))
                    (lat (nodes g ! to_node e)) (lng (nodes g ! to_node e)) * 100"
proof -
  assume g: "build_graph pip osmNodes ways = Some g" and e: "e \<in> set (edges g)"
  have n: "nodes g = graph_nodes (create_nodes osmNodes ways)" by (rule build_graph_nodes(1)[OF g])
  from build_graph_nodes(2)[OF g e] n
  have "from_node e < length (nodes g) \<and> to_node e < length (nodes g) \<and>
     crimes e = getCrimeLevel pip
       ((lat (nodes g ! from_node e) + lat (nodes g ! to_node e)) / 2)
       ((lng (nodes g ! from_node e) + lng (nodes g ! to_node e)) / 2) \<and>
     weight e = of_int (crimes e) +
       getDistance (lat (nodes g ! from_node e)) (lng (nodes g ! from_node e))
                   (lat (nodes g ! to_node e)) (lng (nodes g ! to_node e)) * 100"
    by (auto simp: edge_from_def Let_def)
  then show ?thesis by (simp add: getDistance_haversine)
qed

theorem edge_weight_formula_witness:
  "\<exists>g e. loadStreetData box_contains example_elements = Some g \<and> e \<in> set (edges g) \<and>
     weight e = of_int (crimes e) + haversine_km 41.306 (-72.930) 41.308 (-72.928) * 100"
proof -
  let ?osm = "fold collect_node example_elements Map.empty"
  let ?ways = "fold collect_way example_elements []"
  obtain g e where g: "build_graph box_contains ?osm ?ways = Some g" and e: "e \<in> set (edges g)"
    and ft: "from_node e = 0" "to_node e = 1"
    and n: "nodes g = [\<lparr>node_id = 0, lat = 41.306, lng = -72.930, osmId = 10\<rparr>,
                       \<lparr>node_id = 1, lat = 41.308, lng = -72.928, osmId = 20\<rparr>,
                       \<lparr>node_id = 2, lat = 41.310, lng = -72.926, osmId = 30\<rparr>]"
    by (rule example_edge)
  from edge_weight_formula[OF g e] ft n
  have "weight e = of_int (crimes e) + haversine_km 41.306 (-72.930) 41.308 (-72.928) * 100"
    by simp
  with g e show ?thesis by (auto simp: loadStreetData_def)
qed

section \<open>One round of the main loop\<close>

lemma relax_edge_frame:
  "n \<notin> set (unvisited st) \<Longrightarrow>
     distances (relax_edge c e st) n = distances st n \<and>
     previous (relax_edge c e st) n = previous st n"
  by (auto simp: relax_edge_def Let_def split: option.splits)

lemma fold_relax_frame:
  "n \<notin> set (unvisited st) \<Longrightarrow>
     distances (fold (relax_edge c) es st) n = distances st n \<and>
     previous (fold (relax_edge c) es st) n = previous st n"
  by (induction es arbitrary: st) (simp_all add: relax_edge_frame unvisited_relax_edge)

lemma visit_frame:
  assumes "n \<notin> set (unvisited st) - {c}"
  shows "distances (visit g c st) n = distances st n"
    and "previous (visit g c st) n = previous st n"
  using assms fold_relax_frame[of n "st\<lparr>unvisited := removeAll c (unvisited st)\<rparr>" c "edges g"]
  by (auto simp: visit_def)

lemma relax_edge_cases:
  "(distances (relax_edge c e st) n = distances st n \<and>
    previous (relax_edge c e st) n = previous st n) \<or>
   (n \<in> set (unvisited st) \<and> neighbor_of e c = Some n \<and>
    distances (relax_edge c e st) n = js_add (distances st c) (weight e) \<and>
    previous (relax_edge c e st) n = NodeId c \<and>
    js_lt (distances (relax_edge c e st) n) (distances st n))"
  by (auto simp: relax_edge_def Let_def split: option.splits)

lemma fold_relax_cases:
  "c \<notin> set (unvisited st) \<Longrightarrow>
   (distances (fold (relax_edge c) es st) n = distances st n \<and>
    previous (fold (relax_edge c) es st) n = previous st n) \<or>
   (n \<in> set (unvisited st) \<and>
    (\<exists>e\<in>set es. neighbor_of e c = Some n \<and>
       distances (fold (relax_edge c) es st) n = js_add (distances st c) (weight e)) \<and>
    previous (fold (relax_edge c) es st) n = NodeId c \<and>
    js_lt (distances (fold (relax_edge c) es st) n) (distances st n))"
proof (induction es arbitrary: st)
  case Nil
  then show ?case by simp
next
  case (Cons e es)
  let ?st1 = "relax_edge c e st"
  have u1: "unvisited ?st1 = unvisited st" by (rule unvisited_relax_edge)
  with Cons.prems have c1: "c \<notin> set (unvisited ?st1)" by simp
  have dc: "distances ?st1 c = distances st c"
    using relax_edge_frame[OF Cons.prems] by simp
  from Cons.IH[OF c1] relax_edge_cases[of c e st n] show ?case
    unfolding u1 dc by (auto intro: js_lt_trans)
qed

lemma relax_edge_covers:
  "neighbor_of e c = Some n \<Longrightarrow> n \<in> set (unvisited st) \<Longrightarrow> c \<notin> set (unvisited st) \<Longrightarrow>
     \<not> js_lt (js_add (distances st c) (weight e)) (distances (relax_edge c e st) n)"
  by (auto simp: relax_edge_def Let_def)

lemma fold_relax_covers:
  "c \<notin> set (unvisited st) \<Longrightarrow> e \<in> set es \<Longrightarrow> neighbor_of e c = Some n \<Longrightarrow>
   n \<in> set (unvisited st) \<Longrightarrow>
     \<not> js_lt (js_add (distances st c) (weight e)) (distances (fold (relax_edge c) es st) n)"
proof (induction es arbitrary: st)
  case Nil
  then show ?case by simp
next
  case (Cons a es)
  let ?st1 = "relax_edge c a st"
  have u1: "unvisited ?st1 = unvisited st" by (rule unvisited_relax_edge)
  have dc: "distances ?st1 c = distances st c"
    using relax_edge_frame[OF Cons.prems(1)] by simp
  show ?case
  proof (cases "e \<in> set es")
    case True
    from Cons.IH[of ?st1, OF _ True Cons.prems(3)] Cons.prems(1,4) show ?thesis
      by (simp add: u1 dc)
  next
    case False
    with Cons.prems(2) have ea: "e = a" by simp
    have 1: "\<not> js_lt (js_add (distances st c) (weight e)) (distances ?st1 n)"
      unfolding ea[symmetric] using relax_edge_covers[OF Cons.prems(3,4,1)] .
    from fold_relax_cases[of c ?st1 es n] Cons.prems(1)
    have "distances (fold (relax_edge c) es ?st1) n = distances ?st1 n \<or>
          js_lt (distances (fold (relax_edge c) es ?st1) n) (distances ?st1 n)"
      by (auto simp: u1)
    with 1 show ?thesis
      using ea by (auto dest: js_lt_not_le_trans)
  qed
qed

text \<open>The same facts for one round of the loop.\<close>

lemma visit_cases:
  "(distances (visit g c st) n = distances st n \<and> previous (visit g c st) n = previous st n) \<or>
   (n \<in> set (unvisited st) - {c} \<and>
    (\<exists>e\<in>set (edges g). neighbor_of e c = Some n \<and>
       distances (visit g c st) n = js_add (distances st c) (weight e)) \<and>
    previous (visit g c st) n = NodeId c \<and>
    js_lt (distances (visit g c st) n) (distances st n))"
  using fold_relax_cases[of c "st\<lparr>unvisited := removeAll c (unvisited st)\<rparr>" "edges g" n]
  by (auto simp: visit_def)

lemma visit_covers:
  "e \<in> set (edges g) \<Longrightarrow> neighbor_of e c = Some n \<Longrightarrow> n \<in> set (unvisited st) - {c} \<Longrightarrow>
     \<not> js_lt (js_add (distances st c) (weight e)) (distances (visit g c st) n)"
  using fold_relax_covers[of c "st\<lparr>unvisited := removeAll c (unvisited st)\<rparr>" e "edges g" n]
  by (auto simp: visit_def)

section \<open>The early exit\<close>

lemma pointers_visited_initialize: "pointers_visited (initialize g s)"
  by (simp add: pointers_visited_def initialize_previous)

lemma pointers_visited_visit:
  assumes "pointers_visited st"
  shows "pointers_visited (visit g c st)"
  unfolding pointers_visited_def
proof (intro allI impI)
  fix n m
  assume p: "previous (visit g c st) n = NodeId m"
  from visit_cases[of g c st n] show "m \<notin> set (unvisited (visit g c st))"
  proof
    assume "distances (visit g c st) n = distances st n \<and> previous (visit g c st) n = previous st n"
    with p assms have "m \<notin> set (unvisited st)" by (simp add: pointers_visited_def)
    then show ?thesis by (simp add: unvisited_visit)
  next
    assume "n \<in> set (unvisited st) - {c} \<and>
      (\<exists>e\<in>set (edges g). neighbor_of e c = Some n \<and>
         distances (visit g c st) n = js_add (distances st c) (weight e)) \<and>
      previous (visit g c st) n = NodeId c \<and>
      js_lt (distances (visit g c st) n) (distances st n)"
    with p have "m = c" by simp
    then show ?thesis by (simp add: unvisited_visit)
  qed
qed

lemma main_loop_pointers_visited:
  "pointers_visited st \<Longrightarrow> pointers_visited (main_loop g t st)"
proof (induction g t st rule: main_loop.induct)
  case (1 g t st)
  show ?case
  proof (cases "unvisited st = []")
    case True
    with "1.prems" show ?thesis by (simp add: main_loop.simps[of g t st])
  next
    case False
    show ?thesis
    proof (cases "find_min (distances st) (unvisited st)")
      case None
      with False "1.prems" show ?thesis by (simp add: main_loop.simps[of g t st])
    next
      case (Some c)
      show ?thesis
      proof (cases "c = t")
        case True
        with False Some "1.prems" show ?thesis by (simp add: main_loop.simps[of g t st])
      next
        case ne: False
        from "1.IH"[OF False Some ne pointers_visited_visit[OF "1.prems"]]
        show ?thesis using False Some ne by (simp add: main_loop.simps[of g t st])
      qed
    qed
  qed
qed

lemma main_loop_exit:
  "unvisited (main_loop g t st) = [] \<or>
   find_min (distances (main_loop g t st)) (unvisited (main_loop g t st)) = None \<or>
   find_min (distances (main_loop g t st)) (unvisited (main_loop g t st)) = Some t"
proof (induction g t st rule: main_loop.induct)
  case (1 g t st)
  show ?case
  proof (cases "unvisited st = []")
    case True
    then show ?thesis by (simp add: main_loop.simps[of g t st])
  next
    case False
    show ?thesis
    proof (cases "find_min (distances st) (unvisited st)")
      case None
      with False show ?thesis by (simp add: main_loop.simps[of g t st])
    next
      case (Some c)
      show ?thesis
      proof (cases "c = t")
        case True
        with False Some show ?thesis by (simp add: main_loop.simps[of g t st])
      next
        case ne: False
        from "1.IH"[OF False Some ne]
        show ?thesis using False Some ne by (simp add: main_loop.simps[of g t st])
      qed
    qed
  qed
qed

lemma exhaustive_after_main_loop:
  "main_loop_exhaustive g (main_loop g t st) = main_loop_exhaustive g st"
proof (induction g t st rule: main_loop.induct)
  case (1 g t st)
  show ?case
  proof (cases "unvisited st = []")
    case True
    then show ?thesis by (simp add: main_loop.simps[of g t st])
  next
    case False
    show ?thesis
    proof (cases "find_min (distances st) (unvisited st)")
      case None
      with False show ?thesis by (simp add: main_loop.simps[of g t st])
    next
      case (Some c)
      show ?thesis
      proof (cases "c = t")
        case True
        with False Some show ?thesis by (simp add: main_loop.simps[of g t st])
      next
        case ne: False
        from "1.IH"[OF False Some ne]
        show ?thesis using False Some ne
          by (simp add: main_loop.simps[of g t st] main_loop_exhaustive.simps[of g st])
      qed
    qed
  qed
qed

lemma exhaustive_frame:
  "n \<notin> set (unvisited st) \<Longrightarrow> previous (main_loop_exhaustive g st) n = previous st n"
proof (induction g st rule: main_loop_exhaustive.induct)
  case (1 g st)
  show ?case
  proof (cases "unvisited st = []")
    case True
    then show ?thesis by (simp add: main_loop_exhaustive.simps[of g st])
  next
    case False
    show ?thesis
    proof (cases "find_min (distances st) (unvisited st)")
      case None
      with False show ?thesis by (simp add: main_loop_exhaustive.simps[of g st])
    next
      case (Some c)
      from "1.prems" have n: "n \<notin> set (unvisited (visit g c st))"
        by (simp add: unvisited_visit)
      from "1.prems" have "previous (visit g c st) n = previous st n"
        by (intro visit_frame) simp
      with "1.IH"[OF False Some n] show ?thesis
        using False Some by (simp add: main_loop_exhaustive.simps[of g st])
    qed
  qed
qed

lemma exhaustive_keeps_chain:
  assumes "st = main_loop g t st0" and "n \<notin> set (unvisited st) - {t}"
  shows "previous (main_loop_exhaustive g st) n = previous st n"
proof -
  from main_loop_exit[of g t st0] assms(1)
  consider "unvisited st = []" | "find_min (distances st) (unvisited st) = None"
    | "unvisited st \<noteq> []" "find_min (distances st) (unvisited st) = Some t"
    by auto
  then show ?thesis
  proof cases
    case 1
    then show ?thesis by (simp add: main_loop_exhaustive.simps[of g st])
  next
    case 2
    then show ?thesis by (simp add: main_loop_exhaustive.simps[of g st])
  next
    case 3
    then have "main_loop_exhaustive g st = main_loop_exhaustive g (visit g t st)"
      by (simp add: main_loop_exhaustive.simps[of g st])
    moreover from assms(2) have "n \<notin> set (unvisited (visit g t st))"
      by (simp add: unvisited_visit)
    then have "previous (main_loop_exhaustive g (visit g t st)) n = previous (visit g t st) n"
      by (rule exhaustive_frame)
    moreover from assms(2) have "previous (visit g t st) n = previous st n"
      by (rule visit_frame)
    ultimately show ?thesis by simp
  qed
qed

lemma reconstruct_agree_Some:
  assumes r: "reconstruct p cur path = Some y"
    and agree: "\<forall>n\<in>F. q n = p n"
    and closed: "\<forall>n\<in>F. \<forall>m. p n = NodeId m \<longrightarrow> m \<in> F"
    and cur: "\<forall>n. cur = NodeId n \<longrightarrow> n \<in> F"
  shows "reconstruct q cur path = Some y"
proof -
  have "p = p \<longrightarrow> (\<forall>n. cur = NodeId n \<longrightarrow> n \<in> F) \<longrightarrow> reconstruct q cur path = Some y"
  proof (rule reconstruct.raw_induct[where P = "\<lambda>p' cur path y.
      p' = p \<longrightarrow> (\<forall>n. cur = NodeId n \<longrightarrow> n \<in> F) \<longrightarrow> reconstruct q cur path = Some y",
      OF _ r])
    fix f p' cur path y
    assume IH: "\<And>p' cur path y. f p' cur path = Some y \<Longrightarrow>
        p' = p \<longrightarrow> (\<forall>n. cur = NodeId n \<longrightarrow> n \<in> F) \<longrightarrow> reconstruct q cur path = Some y"
      and b: "(if cur \<noteq> Null then f p' (lookup_previous p' cur) (cur # path) else Some path) = Some y"
    show "p' = p \<longrightarrow> (\<forall>n. cur = NodeId n \<longrightarrow> n \<in> F) \<longrightarrow> reconstruct q cur path = Some y"
    proof (intro impI)
      assume pp: "p' = p" and c: "\<forall>n. cur = NodeId n \<longrightarrow> n \<in> F"
      show "reconstruct q cur path = Some y"
      proof (cases "cur = Null")
        case True
        with b show ?thesis by (simp add: reconstruct.simps[of q Null])
      next
        case False
        with b pp have f: "f p (lookup_previous p cur) (cur # path) = Some y" by simp
        have l: "lookup_previous q cur = lookup_previous p cur"
          using c agree by (cases cur) (simp_all add: lookup_previous_def)
        have "\<forall>n. lookup_previous p cur = NodeId n \<longrightarrow> n \<in> F"
          using c closed by (cases cur) (auto simp: lookup_previous_def)
        with IH[OF f] have "reconstruct q (lookup_previous p cur) (cur # path) = Some y" by simp
        with False l show ?thesis by (simp add: reconstruct.simps[of q cur])
      qed
    qed
  qed
  with cur show ?thesis by simp
qed

lemma reconstruct_agree:
  assumes agree: "\<forall>n\<in>F. q n = p n"
    and closed: "\<forall>n\<in>F. \<forall>m. p n = NodeId m \<longrightarrow> m \<in> F"
    and cur: "\<forall>n. cur = NodeId n \<longrightarrow> n \<in> F"
  shows "reconstruct q cur path = reconstruct p cur path"
proof (cases "reconstruct p cur path")
  case (Some y)
  from reconstruct_agree_Some[OF Some agree closed cur] Some show ?thesis by simp
next
  case None
  show ?thesis
  proof (cases "reconstruct q cur path")
    case None': None
    with None show ?thesis by simp
  next
    case (Some y)
    have a: "\<forall>n\<in>F. p n = q n" using agree by simp
    have c: "\<forall>n\<in>F. \<forall>m. q n = NodeId m \<longrightarrow> m \<in> F" using agree closed by simp
    from reconstruct_agree_Some[OF Some a c cur] None show ?thesis by simp
  qed
qed

text \<open>
  Claim C8. The solver and the same loop run to exhaustion return the same result on
  every graph and every pair of identifiers: the same path or \<open>null\<close>, and the
  same failure to return. When the destination is selected, its predecessor chain
  runs through nodes that have left \<open>unvisited\<close>, and later rounds write only to
  nodes still in it. The equality does not depend on the weights.
\<close>

theorem early_exit_same_result: "dijkstra g s t = dijkstra_exhaustive g s t"
proof -
  let ?A = "main_loop g t (initialize g s)"
  let ?B = "main_loop_exhaustive g (initialize g s)"
  let ?F = "- (set (unvisited ?A) - {t})"
  have B: "?B = main_loop_exhaustive g ?A"
    by (simp add: exhaustive_after_main_loop)
  have agree: "\<forall>n\<in>?F. previous ?B n = previous ?A n"
    unfolding B using exhaustive_keeps_chain[OF refl, of _ g t "initialize g s"] by simp
  have "pointers_visited ?A"
    by (intro main_loop_pointers_visited pointers_visited_initialize)
  then have closed: "\<forall>n\<in>?F. \<forall>m. previous ?A n = NodeId m \<longrightarrow> m \<in> ?F"
    by (auto simp: pointers_visited_def)
  have "reconstruct (previous ?B) (NodeId t) [] = reconstruct (previous ?A) (NodeId t) []"
    by (rule reconstruct_agree[OF agree closed]) simp
  then show ?thesis
    by (simp add: dijkstra_def dijkstra_exhaustive_def)
qed

section \<open>Shortest paths\<close>

lemma joins_neighbor: "joins e u v \<longleftrightarrow> neighbor_of e u = Some v"
  by (auto simp: joins_def neighbor_of_def)

lemma walk_nonempty: "walk g ns es \<Longrightarrow> ns \<noteq> []"
  by (induction g ns es rule: walk.induct) auto

lemma walk_hd: "walk g (n # ns) es \<Longrightarrow> n \<in> node_ids g"
  by (cases ns; cases es) auto

lemma walk_edges: "walk g ns es \<Longrightarrow> set es \<subseteq> set (edges g)"
  by (induction g ns es rule: walk.induct) auto

lemma walk_length: "walk g ns es \<Longrightarrow> length ns = Suc (length es)"
  by (induction g ns es rule: walk.induct) auto

lemma walk_snoc:
  "walk g ns es \<Longrightarrow> e \<in> set (edges g) \<Longrightarrow> joins e (last ns) n \<Longrightarrow> n \<in> node_ids g \<Longrightarrow>
     walk g (ns @ [n]) (es @ [e])"
  by (induction g ns es rule: walk.induct) auto

lemma total_weight_nonneg:
  "\<forall>e\<in>set (edges g). 0 \<le> weight e \<Longrightarrow> set es \<subseteq> set (edges g) \<Longrightarrow> 0 \<le> total_weight es"
  unfolding total_weight_def by (intro sum_list_nonneg) auto

lemma total_weight_simps [simp]:
  "total_weight [] = 0" "total_weight (e # es) = weight e + total_weight es"
  "total_weight (es @ [e]) = total_weight es + weight e"
  by (simp_all add: total_weight_def)

lemma chain_walk:
  "chain g prev F s n ns es \<Longrightarrow> walk g ns es \<and> hd ns = s \<and> last ns = n \<and> s \<in> node_ids g"
proof (induction rule: chain.induct)
  case chain_start
  then show ?case by simp
next
  case (chain_step m ns es n e)
  then have "walk g (ns @ [n]) (es @ [e])"
    by (intro walk_snoc) (simp_all add: joins_neighbor)
  moreover from chain_step have "ns \<noteq> []" using walk_nonempty by blast
  ultimately show ?case using chain_step by simp
qed

lemma chain_mono:
  "chain g prev F s n ns es \<Longrightarrow> F \<subseteq> F' \<Longrightarrow> \<forall>x\<in>F. prev' x = prev x \<Longrightarrow> prev' n = prev n \<Longrightarrow>
     chain g prev' F' s n ns es"
proof (induction rule: chain.induct)
  case chain_start
  then show ?case by (simp add: chain.chain_start)
next
  case (chain_step m ns es n e)
  from chain_step.prems chain_step.hyps(2) have "prev' m = prev m" by blast
  with chain_step.IH chain_step.prems have "chain g prev' F' s m ns es" by blast
  moreover from chain_step have "m \<in> F'" "prev' n = NodeId m" by auto
  ultimately show ?case using chain_step.hyps by (intro chain.chain_step)
qed

lemma chain_reconstruct:
  "chain g prev F s n ns es \<Longrightarrow> prev s = Null \<Longrightarrow>
     reconstruct prev (NodeId n) acc = Some (map NodeId ns @ acc)"
proof (induction arbitrary: acc rule: chain.induct)
  case chain_start
  then show ?case
    by (simp add: reconstruct.simps[of _ "NodeId s"] reconstruct.simps[of _ Null] lookup_previous_def)
next
  case (chain_step m ns es n e)
  from chain_step.IH[OF chain_step.prems, of "NodeId n # acc"] chain_step.hyps(3)
  show ?case
    by (simp add: reconstruct.simps[of _ "NodeId n"] lookup_previous_def)
qed

lemma chain_no_edges:
  "chain g prev F s n ns es \<Longrightarrow> es = [] \<Longrightarrow> n = s \<and> ns = [s]"
  by (induction rule: chain.induct) auto

lemma dinv_initialize: "dinv g s (initialize g s)"
  unfolding dinv_def
proof (intro conjI)
  show "\<forall>n\<in>node_ids g.
       distances (initialize g s) n = Infinity \<and> previous (initialize g s) n = Null \<or>
       (\<exists>ns es. chain g (previous (initialize g s)) (visited g (initialize g s)) s n ns es \<and>
           distances (initialize g s) n = Num (total_weight es))"
  proof
    fix n assume n: "n \<in> node_ids g"
    show "distances (initialize g s) n = Infinity \<and> previous (initialize g s) n = Null \<or>
       (\<exists>ns es. chain g (previous (initialize g s)) (visited g (initialize g s)) s n ns es \<and>
           distances (initialize g s) n = Num (total_weight es))"
    proof (cases "n = s")
      case True
      with n have "chain g (previous (initialize g s)) (visited g (initialize g s)) s n [s] []"
        by (simp add: chain_start)
      moreover have "distances (initialize g s) n = Num (total_weight [])"
        using True by (simp add: initialize_distances)
      ultimately show ?thesis by blast
    next
      case False
      with n show ?thesis by (simp add: initialize_distances initialize_previous)
    qed
  qed
qed (simp_all add: initialize_unvisited initialize_distances initialize_previous visited_def)

lemma dinv_dist_cases:
  assumes "dinv g s st" and "n \<in> node_ids g"
  shows "distances st n = Infinity \<or> (\<exists>d. distances st n = Num d \<and> 0 \<le> d) \<or> \<not> (\<forall>e\<in>set (edges g). 0 \<le> weight e)"
proof -
  from assms have "(distances st n = Infinity \<and> previous st n = Null) \<or>
        (\<exists>ns es. chain g (previous st) (visited g st) s n ns es \<and>
                  distances st n = Num (total_weight es))"
    by (simp add: dinv_def)
  then show ?thesis
  proof
    assume "\<exists>ns es. chain g (previous st) (visited g st) s n ns es \<and>
                  distances st n = Num (total_weight es)"
    then obtain ns es where c: "chain g (previous st) (visited g st) s n ns es"
      and d: "distances st n = Num (total_weight es)" by blast
    from chain_walk[OF c] have "set es \<subseteq> set (edges g)" using walk_edges by blast
    then show ?thesis using d total_weight_nonneg[of g es] by blast
  qed simp
qed

lemma dinv_visit:
  assumes nonneg: "\<forall>e\<in>set (edges g). 0 \<le> weight e"
    and inv: "dinv g s st"
    and fm: "find_min (distances st) (unvisited st) = Some c"
  shows "dinv g s (visit g c st)"
proof -
  let ?st' = "visit g c st"
  let ?N = "node_ids g"
  let ?U = "set (unvisited st)"
  let ?V = "visited g st"
  note cU = find_min_Some(1)[OF fm]
  from find_min_Some(2)[OF fm] obtain dc where dc: "distances st c = Num dc"
    by (auto simp: js_lt_Infinity_iff)
  note cmin = find_min_Some(3)[OF fm]
  from inv have sub: "?U \<subseteq> ?N" by (simp add: dinv_def)
  with cU have cN: "c \<in> ?N" by blast
  have U': "set (unvisited ?st') = ?U - {c}" by (simp add: unvisited_visit)
  have V': "visited g ?st' = insert c ?V" using cN by (auto simp: visited_def U')
  from dinv_dist_cases[OF inv cN] dc nonneg have dc0: "0 \<le> dc" by auto
  have frame: "distances ?st' n = distances st n \<and> previous ?st' n = previous st n"
    if "n \<notin> ?U - {c}" for n
    using visit_frame[OF that] by simp
  have changed: "distances ?st' n = distances st n \<and> previous ?st' n = previous st n \<or>
      n \<in> ?U - {c} \<and> previous ?st' n = NodeId c \<and>
      (\<exists>e\<in>set (edges g). neighbor_of e c = Some n \<and> distances ?st' n = Num (dc + weight e) \<and>
         js_lt (Num (dc + weight e)) (distances st n))" for n
    using visit_cases[of g c st n] dc by auto
  have dists: "distances st n = Infinity \<or> (\<exists>d. distances st n = Num d)" if "n \<in> ?N" for n
    using dinv_dist_cases[OF inv that] nonneg by blast
  have Vfin: "\<exists>d. distances st v = Num d" if "v \<in> ?V" for v
    using inv that by (simp add: dinv_def)
  have Vle: "\<not> js_lt (distances st u) (distances st v)" if "v \<in> ?V" "u \<in> ?U" for u v
    using inv that by (simp add: dinv_def)
  have K: "\<not> js_lt (js_add (distances st v) (weight e)) (distances st u)"
    if "v \<in> ?V" "e \<in> set (edges g)" "u \<in> ?N" "neighbor_of e v = Some u" for u v e
    using inv that by (simp add: dinv_def)
  have s0: "distances st s = Num 0" using inv by (simp add: dinv_def)

  have s_same: "distances ?st' s = distances st s \<and> previous ?st' s = previous st s"
    using changed[of s] s0 dc0 nonneg by auto
  have 1: "set (unvisited ?st') \<subseteq> ?N" using sub U' by blast
  have 2: "distances ?st' s = Num 0" using s_same s0 by simp
  have 3: "s \<in> ?N \<longrightarrow> previous ?st' s = Null" using s_same inv by (simp add: dinv_def)
  have 4: "\<forall>n. n \<notin> ?N \<longrightarrow> previous ?st' n = Undefined"
  proof (intro allI impI)
    fix n assume n: "n \<notin> ?N"
    with sub have "n \<notin> ?U - {c}" by blast
    from frame[OF this] n inv show "previous ?st' n = Undefined" by (simp add: dinv_def)
  qed
  have keep: "chain g (previous ?st') (visited g ?st') s n ns es"
    if ch: "chain g (previous st) ?V s n ns es" and same: "previous ?st' n = previous st n"
    for n ns es
  proof (rule chain_mono[OF ch])
    show "previous ?st' n = previous st n" by (rule same)
    show "?V \<subseteq> visited g ?st'" using V' by blast
    show "\<forall>x\<in>?V. previous ?st' x = previous st x"
    proof
      fix x assume "x \<in> ?V"
      then have "x \<notin> ?U - {c}" by (simp add: visited_def)
      from frame[OF this] show "previous ?st' x = previous st x" by simp
    qed
  qed
  obtain cns ces where cch: "chain g (previous st) ?V s c cns ces" and cw: "dc = total_weight ces"
    using inv cN dc by (auto simp: dinv_def)
  have cch': "chain g (previous ?st') (visited g ?st') s c cns ces"
    using frame[of c] by (intro keep[OF cch]) simp
  have 5: "\<forall>n\<in>?N.
        (distances ?st' n = Infinity \<and> previous ?st' n = Null) \<or>
        (\<exists>ns es. chain g (previous ?st') (visited g ?st') s n ns es \<and>
                  distances ?st' n = Num (total_weight es))"
  proof
    fix n assume n: "n \<in> ?N"
    from changed[of n]
    show "(distances ?st' n = Infinity \<and> previous ?st' n = Null) \<or>
        (\<exists>ns es. chain g (previous ?st') (visited g ?st') s n ns es \<and>
                  distances ?st' n = Num (total_weight es))"
    proof
      assume same: "distances ?st' n = distances st n \<and> previous ?st' n = previous st n"
      from inv n have "(distances st n = Infinity \<and> previous st n = Null) \<or>
        (\<exists>ns es. chain g (previous st) ?V s n ns es \<and> distances st n = Num (total_weight es))"
        by (simp add: dinv_def)
      then show ?thesis
      proof
        assume "distances st n = Infinity \<and> previous st n = Null"
        with same show ?thesis by simp
      next
        assume "\<exists>ns es. chain g (previous st) ?V s n ns es \<and> distances st n = Num (total_weight es)"
        then obtain ns es where "chain g (previous st) ?V s n ns es"
          and "distances st n = Num (total_weight es)" by blast
        with keep[of n ns es] same show ?thesis by auto
      qed
    next
      assume "n \<in> ?U - {c} \<and> previous ?st' n = NodeId c \<and>
        (\<exists>e\<in>set (edges g). neighbor_of e c = Some n \<and> distances ?st' n = Num (dc + weight e) \<and>
           js_lt (Num (dc + weight e)) (distances st n))"
      then obtain e where p: "previous ?st' n = NodeId c" and e: "e \<in> set (edges g)"
        and nb: "neighbor_of e c = Some n" and d: "distances ?st' n = Num (dc + weight e)"
        by blast
      have "c \<in> visited g ?st'" using V' by simp
      from chain_step[OF cch' this p e nb n]
      have "chain g (previous ?st') (visited g ?st') s n (cns @ [n]) (ces @ [e])" .
      moreover have "distances ?st' n = Num (total_weight (ces @ [e]))"
        using d cw by simp
      ultimately show ?thesis by blast
    qed
  qed
  have 6: "\<forall>v\<in>visited g ?st'. \<exists>d. distances ?st' v = Num d"
  proof
    fix v assume "v \<in> visited g ?st'"
    then have v: "v = c \<or> v \<in> ?V" using V' by auto
    then have "v \<notin> ?U - {c}" by (auto simp: visited_def)
    from frame[OF this] v dc Vfin show "\<exists>d. distances ?st' v = Num d" by auto
  qed
  have 7: "\<forall>v\<in>visited g ?st'. \<forall>u\<in>set (unvisited ?st').
      \<not> js_lt (distances ?st' u) (distances ?st' v)"
  proof (intro ballI)
    fix v u assume "v \<in> visited g ?st'" and "u \<in> set (unvisited ?st')"
    then have v: "v = c \<or> v \<in> ?V" and u: "u \<in> ?U" "u \<noteq> c" using V' U' by auto
    from v have "v \<notin> ?U - {c}" by (auto simp: visited_def)
    from frame[OF this] have dv: "distances ?st' v = distances st v" by simp
    have old: "\<not> js_lt (distances st u) (distances st v)"
      using v u cmin Vle by auto
    have cv: "\<not> js_lt (distances st c) (distances st v)"
      using v cU Vle by auto
    from changed[of u] show "\<not> js_lt (distances ?st' u) (distances ?st' v)"
    proof
      assume "distances ?st' u = distances st u \<and> previous ?st' u = previous st u"
      with old dv show ?thesis by simp
    next
      assume "u \<in> ?U - {c} \<and> previous ?st' u = NodeId c \<and>
        (\<exists>e\<in>set (edges g). neighbor_of e c = Some u \<and> distances ?st' u = Num (dc + weight e) \<and>
           js_lt (Num (dc + weight e)) (distances st u))"
      then obtain e where "e \<in> set (edges g)" and d: "distances ?st' u = Num (dc + weight e)"
        by blast
      with nonneg have "0 \<le> weight e" by blast
      with cv dc d dv show ?thesis by (cases "distances st v") auto
    qed
  qed
  have 8: "\<forall>v\<in>visited g ?st'. \<forall>e\<in>set (edges g). \<forall>u\<in>?N.
        neighbor_of e v = Some u \<longrightarrow>
        \<not> js_lt (js_add (distances ?st' v) (weight e)) (distances ?st' u)"
  proof (intro ballI impI)
    fix v e u
    assume "v \<in> visited g ?st'" and e: "e \<in> set (edges g)" and u: "u \<in> ?N"
      and nb: "neighbor_of e v = Some u"
    then have v: "v = c \<or> v \<in> ?V" using V' by auto
    then have "v \<notin> ?U - {c}" by (auto simp: visited_def)
    from frame[OF this] have dv: "distances ?st' v = distances st v" by simp
    from e nonneg have w: "0 \<le> weight e" by blast
    show "\<not> js_lt (js_add (distances ?st' v) (weight e)) (distances ?st' u)"
    proof (cases "v = c")
      case True
      show ?thesis
      proof (cases "u \<in> ?U - {c}")
        case True
        from visit_covers[OF e _ True] nb \<open>v = c\<close> dv show ?thesis by simp
      next
        case False
        from frame[OF False] have du: "distances ?st' u = distances st u" by simp
        from False u have "u = c \<or> u \<in> ?V" by (auto simp: visited_def)
        then show ?thesis
        proof
          assume "u = c"
          with du dv True dc w show ?thesis by simp
        next
          assume uV: "u \<in> ?V"
          from Vfin[OF uV] obtain d where d: "distances st u = Num d" by blast
          from Vle[OF uV cU] d dc have "d \<le> dc" by simp
          with du dv True dc d w show ?thesis by simp
        qed
      qed
    next
      case False
      with v have vV: "v \<in> ?V" by simp
      from K[OF vV e u nb] have old: "\<not> js_lt (js_add (distances st v) (weight e)) (distances st u)" .
      from changed[of u] show ?thesis
      proof
        assume "distances ?st' u = distances st u \<and> previous ?st' u = previous st u"
        with old dv show ?thesis by simp
      next
        assume "u \<in> ?U - {c} \<and> previous ?st' u = NodeId c \<and>
          (\<exists>e\<in>set (edges g). neighbor_of e c = Some u \<and> distances ?st' u = Num (dc + weight e) \<and>
             js_lt (Num (dc + weight e)) (distances st u))"
        then obtain e' :: edge where "distances ?st' u = Num (dc + weight e')"
          and "js_lt (Num (dc + weight e')) (distances st u)" by blast
        then have "js_lt (distances ?st' u) (distances st u)" by simp
        from js_lt_not_le_trans[OF old this] dv show ?thesis by simp
      qed
    qed
  qed
  have 9: "s \<in> set (unvisited ?st') \<longrightarrow> (\<forall>n\<in>?N. n \<noteq> s \<longrightarrow> distances ?st' n = Infinity)"
  proof
    assume "s \<in> set (unvisited ?st')"
    then have sU: "s \<in> ?U" and "s \<noteq> c" using U' by auto
    with inv cN have "distances st c = Infinity" by (simp add: dinv_def)
    with dc show "\<forall>n\<in>?N. n \<noteq> s \<longrightarrow> distances ?st' n = Infinity" by simp
  qed
  from 1 2 3 4 5 6 7 8 9 show ?thesis unfolding dinv_def by blast
qed

lemma main_loop_dinv:
  assumes nonneg: "\<forall>e\<in>set (edges g). 0 \<le> weight e"
  shows "dinv g s st \<Longrightarrow> dinv g s (main_loop g t st)"
  using nonneg
proof (induction g t st rule: main_loop.induct)
  case (1 g t st)
  show ?case
  proof (cases "unvisited st = []")
    case True
    with "1.prems" show ?thesis by (simp add: main_loop.simps[of g t st])
  next
    case False
    show ?thesis
    proof (cases "find_min (distances st) (unvisited st)")
      case None
      with False "1.prems" show ?thesis by (simp add: main_loop.simps[of g t st])
    next
      case (Some c)
      show ?thesis
      proof (cases "c = t")
        case True
        with False Some "1.prems" show ?thesis by (simp add: main_loop.simps[of g t st])
      next
        case ne: False
        from dinv_visit[OF "1.prems"(2) "1.prems"(1) Some] have "dinv g s (visit g c st)" .
        from "1.IH"[OF False Some ne this "1.prems"(2)]
        show ?thesis using False Some ne by (simp add: main_loop.simps[of g t st])
      qed
    qed
  qed
qed

lemma main_loop_end_unvisited:
  "t \<in> set (unvisited st) \<Longrightarrow> t \<in> set (unvisited (main_loop g t st))"
proof (induction g t st rule: main_loop.induct)
  case (1 g t st)
  show ?case
  proof (cases "unvisited st = []")
    case True
    with "1.prems" show ?thesis by (simp add: main_loop.simps[of g t st])
  next
    case False
    show ?thesis
    proof (cases "find_min (distances st) (unvisited st)")
      case None
      with False "1.prems" show ?thesis by (simp add: main_loop.simps[of g t st])
    next
      case (Some c)
      show ?thesis
      proof (cases "c = t")
        case True
        with False Some "1.prems" show ?thesis by (simp add: main_loop.simps[of g t st])
      next
        case ne: False
        with "1.prems" have "t \<in> set (unvisited (visit g c st))" by (simp add: unvisited_visit)
        from "1.IH"[OF False Some ne this]
        show ?thesis using False Some ne by (simp add: main_loop.simps[of g t st])
      qed
    qed
  qed
qed

lemma lower_bound:
  "walk g ns es \<Longrightarrow> \<forall>e\<in>set (edges g). 0 \<le> weight e \<Longrightarrow> dinv g s st \<Longrightarrow>
   hd ns \<in> visited g st \<Longrightarrow> distances st (hd ns) = Num dx \<Longrightarrow>
     (last ns \<in> visited g st \<and> (\<exists>dy. distances st (last ns) = Num dy \<and> dy \<le> dx + total_weight es)) \<or>
     (\<exists>u\<in>set (unvisited st). \<exists>du. distances st u = Num du \<and> du \<le> dx + total_weight es)"
proof (induction g ns es arbitrary: dx rule: walk.induct)
  case (1 g n)
  then show ?case by simp
next
  case (2 g u v ns e es)
  note nonneg = "2.prems"(2) and inv = "2.prems"(3)
  from "2.prems"(1) have uN: "u \<in> node_ids g" and e: "e \<in> set (edges g)" and j: "joins e u v"
    and w: "walk g (v # ns) es" by simp_all
  from "2.prems"(4,5) have uV: "u \<in> visited g st" and du: "distances st u = Num dx" by simp_all
  from w have vN: "v \<in> node_ids g" by (rule walk_hd)
  from e nonneg have we: "0 \<le> weight e" by blast
  from walk_edges[OF w] have wes: "0 \<le> total_weight es"
    by (intro total_weight_nonneg[OF nonneg])
  from inv uV e vN j have k: "\<not> js_lt (Num (dx + weight e)) (distances st v)"
    using du by (auto simp: dinv_def joins_neighbor)
  from dinv_dist_cases[OF inv vN] nonneg
  have "distances st v = Infinity \<or> (\<exists>d. distances st v = Num d)" by blast
  with k obtain dv where dv: "distances st v = Num dv" and le: "dv \<le> dx + weight e" by auto
  show ?case
  proof (cases "v \<in> visited g st")
    case True
    from "2.IH"[OF w nonneg inv, of dv] True dv
    have "(last (v # ns) \<in> visited g st \<and>
            (\<exists>dy. distances st (last (v # ns)) = Num dy \<and> dy \<le> dv + total_weight es)) \<or>
          (\<exists>u\<in>set (unvisited st). \<exists>du. distances st u = Num du \<and> du \<le> dv + total_weight es)"
      by simp
    then show ?thesis
    proof
      assume "last (v # ns) \<in> visited g st \<and>
            (\<exists>dy. distances st (last (v # ns)) = Num dy \<and> dy \<le> dv + total_weight es)"
      then obtain dy where "last (v # ns) \<in> visited g st"
        and "distances st (last (v # ns)) = Num dy" and "dy \<le> dv + total_weight es" by blast
      moreover from this le have "dy \<le> dx + total_weight (e # es)" by simp
      ultimately have "last (u # v # ns) \<in> visited g st \<and>
            (\<exists>dy. distances st (last (u # v # ns)) = Num dy \<and> dy \<le> dx + total_weight (e # es))"
        by simp
      then show ?thesis ..
    next
      assume "\<exists>u\<in>set (unvisited st). \<exists>du. distances st u = Num du \<and> du \<le> dv + total_weight es"
      then obtain u' du' where "u' \<in> set (unvisited st)" and "distances st u' = Num du'"
        and "du' \<le> dv + total_weight es" by blast
      moreover from this le have "du' \<le> dx + total_weight (e # es)" by simp
      ultimately show ?thesis by blast
    qed
  next
    case False
    with vN have "v \<in> set (unvisited st)" by (simp add: visited_def)
    moreover from le wes have "dv \<le> dx + total_weight (e # es)" by simp
    ultimately show ?thesis using dv by blast
  qed
qed simp_all

lemma walk_joined:
  "walk g ns es \<Longrightarrow> Suc i < length ns \<Longrightarrow>
     es ! i \<in> set (edges g) \<and> joins (es ! i) (ns ! i) (ns ! Suc i)"
proof (induction g ns es arbitrary: i rule: walk.induct)
  case (2 g u v ns e es)
  then show ?case by (cases i) auto
qed simp_all

lemma reconstruct_Null_start:
  "prev t = Null \<Longrightarrow> reconstruct prev (NodeId t) [] = Some [NodeId t]"
  by (simp add: reconstruct.simps[of _ "NodeId t"] reconstruct.simps[of _ Null] lookup_previous_def)

text \<open>
  Claim C1. Let all edge weights be non-negative. If \<open>dijkstra\<close> returns a path, the
  path leads from the start node to the end node through nodes of the graph, every two
  consecutive nodes are joined by an edge, and with a suitable edge for every step its
  weight is at most the weight of every path of the graph from the start to the end.
  If the end node is a node of the graph and no path of at least one edge leads from
  the start to it, \<open>dijkstra\<close> returns \<open>null\<close>.
\<close>

theorem dijkstra_shortest_path:
  assumes nonneg: "\<forall>e\<in>set (edges g). 0 \<le> weight e"
  shows "(dijkstra g s t = Some (Some path) \<longrightarrow>
            (\<exists>ns es. path = map NodeId ns \<and> hd ns = s \<and> last ns = t \<and> walk g ns es \<and>
               (\<forall>i. Suc i < length ns \<longrightarrow> (\<exists>e\<in>set (edges g). joins e (ns ! i) (ns ! Suc i))) \<and>
               (\<forall>ns' es'. walk g ns' es' \<and> hd ns' = s \<and> last ns' = t \<longrightarrow>
                  total_weight es \<le> total_weight es'))) \<and>
         (t \<in> node_ids g \<and> \<not> (\<exists>ns es. walk g ns es \<and> es \<noteq> [] \<and> hd ns = s \<and> last ns = t) \<longrightarrow>
            dijkstra g s t = Some None)"
proof (intro conjI impI)
  let ?A = "main_loop g t (initialize g s)"
  have inv: "dinv g s ?A"
    by (intro main_loop_dinv[OF nonneg] dinv_initialize)
  have R: "(distances ?A n = Infinity \<and> previous ?A n = Null) \<or>
        (\<exists>ns es. chain g (previous ?A) (visited g ?A) s n ns es \<and>
                  distances ?A n = Num (total_weight es))" if "n \<in> node_ids g" for n
    using inv that by (simp add: dinv_def)
  {
    assume d: "dijkstra g s t = Some (Some path)"
    then have rec: "reconstruct (previous ?A) (NodeId t) [] = Some path" and len: "1 < length path"
      by (auto simp: dijkstra_def Let_def split: option.splits if_splits)
    have tN: "t \<in> node_ids g"
    proof (rule ccontr)
      assume "t \<notin> node_ids g"
      with inv have "previous ?A t = Undefined" by (simp add: dinv_def)
      with reconstruct_absent[of "previous ?A" t "[]"] rec show False by simp
    qed
    have notNull: "previous ?A t \<noteq> Null"
    proof
      assume "previous ?A t = Null"
      with reconstruct_Null_start[of "previous ?A" t] rec len show False by simp
    qed
    with R[OF tN] obtain ns es where ch: "chain g (previous ?A) (visited g ?A) s t ns es"
      and dt: "distances ?A t = Num (total_weight es)" by blast
    from chain_walk[OF ch] have w: "walk g ns es" and hd: "hd ns = s" and last: "last ns = t"
      and sN: "s \<in> node_ids g" by simp_all
    from inv sN have ps: "previous ?A s = Null" by (simp add: dinv_def)
    from chain_reconstruct[OF ch ps, of "[]"] rec have path: "path = map NodeId ns" by simp
    from ps notNull have ts: "t \<noteq> s" by auto
    have "t \<in> set (unvisited (initialize g s))" using tN by (simp add: initialize_unvisited)
    then have tU: "t \<in> set (unvisited ?A)" by (rule main_loop_end_unvisited)
    have sV: "s \<in> visited g ?A"
    proof (rule ccontr)
      assume "s \<notin> visited g ?A"
      with sN have "s \<in> set (unvisited ?A)" by (simp add: visited_def)
      with inv tN ts have "distances ?A t = Infinity" by (simp add: dinv_def)
      with dt show False by simp
    qed
    have s0: "distances ?A s = Num 0" using inv by (simp add: dinv_def)
    have fm: "find_min (distances ?A) (unvisited ?A) = Some t"
    proof -
      from tU have "unvisited ?A \<noteq> []" by auto
      moreover have "find_min (distances ?A) (unvisited ?A) \<noteq> None"
      proof
        assume "find_min (distances ?A) (unvisited ?A) = None"
        from find_min_None[OF this] tU dt show False by auto
      qed
      ultimately show ?thesis using main_loop_exit[of g t "initialize g s"] by auto
    qed
    have opt: "total_weight es \<le> total_weight es'"
      if w': "walk g ns' es'" and h': "hd ns' = s" and l': "last ns' = t" for ns' es'
    proof -
      from lower_bound[OF w' nonneg inv, of 0] h' sV s0
      have "(last ns' \<in> visited g ?A \<and>
              (\<exists>dy. distances ?A (last ns') = Num dy \<and> dy \<le> 0 + total_weight es')) \<or>
            (\<exists>u\<in>set (unvisited ?A). \<exists>du. distances ?A u = Num du \<and> du \<le> 0 + total_weight es')"
        by simp
      moreover from tU l' have "last ns' \<notin> visited g ?A" by (simp add: visited_def)
      ultimately obtain u du where u: "u \<in> set (unvisited ?A)" and du: "distances ?A u = Num du"
        and le: "du \<le> total_weight es'" by auto
      from find_min_Some(3)[OF fm] u have "\<not> js_lt (distances ?A u) (distances ?A t)" by blast
      with du dt have "total_weight es \<le> du" by simp
      with le show ?thesis by simp
    qed
    have "\<forall>i. Suc i < length ns \<longrightarrow> (\<exists>e\<in>set (edges g). joins e (ns ! i) (ns ! Suc i))"
      using walk_joined[OF w] by blast
    with path hd last w opt
    show "\<exists>ns es. path = map NodeId ns \<and> hd ns = s \<and> last ns = t \<and> walk g ns es \<and>
               (\<forall>i. Suc i < length ns \<longrightarrow> (\<exists>e\<in>set (edges g). joins e (ns ! i) (ns ! Suc i))) \<and>
               (\<forall>ns' es'. walk g ns' es' \<and> hd ns' = s \<and> last ns' = t \<longrightarrow>
                  total_weight es \<le> total_weight es')"
      by blast
  }
  {
    assume a: "t \<in> node_ids g \<and> \<not> (\<exists>ns es. walk g ns es \<and> es \<noteq> [] \<and> hd ns = s \<and> last ns = t)"
    then have tN: "t \<in> node_ids g" by simp
    have "reconstruct (previous ?A) (NodeId t) [] = Some [NodeId t]"
    proof (cases "previous ?A t = Null")
      case True
      with reconstruct_Null_start[of "previous ?A" t] show ?thesis by simp
    next
      case False
      with R[OF tN] obtain ns es where ch: "chain g (previous ?A) (visited g ?A) s t ns es"
        by blast
      from chain_walk[OF ch] a have "es = []" and sN: "s \<in> node_ids g" by auto
      from chain_no_edges[OF ch this(1)] have "t = s" by simp
      with inv sN False show ?thesis by (simp add: dinv_def)
    qed
    then show "dijkstra g s t = Some None" by (simp add: dijkstra_def)
  }
qed

lemma tri_graph_run:
  "dijkstra tri_graph 0 2 = Some (Some [NodeId 0, NodeId 1, NodeId 2])"
  by (simp add: dijkstra_def initialize_def empty_state_def init_node_def set_add_def
      tri_graph_def mk_node_def mk_edge_def main_loop.simps find_min_def visit_def relax_edge_def
      neighbor_of_def Let_def reconstruct.simps lookup_previous_def)

lemma split_graph_walk:
  "walk g ns es \<Longrightarrow> g = split_graph \<Longrightarrow> hd ns \<noteq> 2 \<Longrightarrow> last ns \<noteq> 2"
proof (induction g ns es rule: walk.induct)
  case (2 g u v ns e es)
  from "2.prems" have "v \<noteq> 2"
    by (auto simp: split_graph_def mk_edge_def joins_def)
  with "2.IH" "2.prems" show ?case by simp
qed simp_all

theorem dijkstra_shortest_path_witness:
  "list_all (\<lambda>e. 0 \<le> weight e) (edges tri_graph) \<and>
   dijkstra tri_graph 0 2 = Some (Some [NodeId 0, NodeId 1, NodeId 2]) \<and>
   (\<exists>es. walk tri_graph [0, 1, 2] es \<and>
      \<not> (\<exists>ns' es'. walk tri_graph ns' es' \<and> hd ns' = 0 \<and> last ns' = 2 \<and>
            total_weight es' < total_weight es)) \<and>
   list_all (\<lambda>e. 0 \<le> weight e) (edges split_graph) \<and>
   2 \<in> node_ids split_graph \<and>
   \<not> (\<exists>ns es. walk split_graph ns es \<and> es \<noteq> [] \<and> hd ns = 0 \<and> last ns = 2) \<and>
   dijkstra split_graph 0 2 = Some None"
proof -
  have n1: "\<forall>e\<in>set (edges tri_graph). 0 \<le> weight e"
    by (simp add: tri_graph_def mk_edge_def)
  have n2: "\<forall>e\<in>set (edges split_graph). 0 \<le> weight e"
    by (simp add: split_graph_def mk_edge_def)
  have t2: "2 \<in> node_ids split_graph"
    by (simp add: node_ids_def split_graph_def mk_node_def)
  have nw: "\<not> (\<exists>ns es. walk split_graph ns es \<and> es \<noteq> [] \<and> hd ns = 0 \<and> last ns = 2)"
    using split_graph_walk[OF _ refl] by fastforce
  from dijkstra_shortest_path[OF n1, of 0 2 "[NodeId 0, NodeId 1, NodeId 2]"]
  have "dijkstra tri_graph 0 2 = Some (Some [NodeId 0, NodeId 1, NodeId 2]) \<longrightarrow>
     (\<exists>ns es. [NodeId 0, NodeId 1, NodeId 2] = map NodeId ns \<and> hd ns = 0 \<and> last ns = 2 \<and>
        walk tri_graph ns es \<and>
        (\<forall>i. Suc i < length ns \<longrightarrow> (\<exists>e\<in>set (edges tri_graph). joins e (ns ! i) (ns ! Suc i))) \<and>
        (\<forall>ns' es'. walk tri_graph ns' es' \<and> hd ns' = 0 \<and> last ns' = 2 \<longrightarrow>
                  total_weight es \<le> total_weight es'))"
    by (rule conjunct1)
  from mp[OF this tri_graph_run]
  obtain ns es where p: "[NodeId 0, NodeId 1, NodeId 2] = map NodeId ns"
    and w: "walk tri_graph ns es"
    and o: "\<forall>ns' es'. walk tri_graph ns' es' \<and> hd ns' = 0 \<and> last ns' = 2 \<longrightarrow>
                  total_weight es \<le> total_weight es'"
    by (elim exE conjE)
  have "inj NodeId" by (simp add: inj_def)
  moreover have "map NodeId [0, 1, 2] = map NodeId ns" using p by simp
  ultimately have "ns = [0, 1, 2]" by (simp only: inj_map_eq_map)
  with w o have "\<exists>es. walk tri_graph [0, 1, 2] es \<and>
      \<not> (\<exists>ns' es'. walk tri_graph ns' es' \<and> hd ns' = 0 \<and> last ns' = 2 \<and>
            total_weight es' < total_weight es)"
    by (intro exI[of _ es]) fastforce
  moreover from dijkstra_shortest_path[OF n2, of 0 2]
  have "2 \<in> node_ids split_graph \<and>
      \<not> (\<exists>ns es. walk split_graph ns es \<and> es \<noteq> [] \<and> hd ns = 0 \<and> last ns = 2) \<longrightarrow>
      dijkstra split_graph 0 2 = Some None"
    by (rule conjunct2)
  with t2 nw have "dijkstra split_graph 0 2 = Some None" by (elim impE) (intro conjI)
  ultimately show ?thesis
    using n1 n2 t2 nw tri_graph_run by (simp add: list_all_iff)
qed

section \<open>An end node outside the graph\<close>

text \<open>
  When \<open>endNodeId\<close> is not the identifier of a node of the graph, \<open>previous[endNodeId]\<close>
  is \<open>undefined\<close> from the start to the end of the main loop, and the loop that
  rebuilds the path does not return.
\<close>

lemma main_loop_frame:
  "n \<notin> set (unvisited st) \<Longrightarrow> previous (main_loop g t st) n = previous st n"
proof (induction g t st rule: main_loop.induct)
  case (1 g t st)
  show ?case
  proof (cases "unvisited st = []")
    case True
    then show ?thesis by (simp add: main_loop.simps[of g t st])
  next
    case False
    show ?thesis
    proof (cases "find_min (distances st) (unvisited st)")
      case None
      with False show ?thesis by (simp add: main_loop.simps[of g t st])
    next
      case (Some c)
      show ?thesis
      proof (cases "c = t")
        case True
        with False Some show ?thesis by (simp add: main_loop.simps[of g t st])
      next
        case ne: False
        from "1.prems" have n: "n \<notin> set (unvisited (visit g c st))"
          by (simp add: unvisited_visit)
        from "1.prems" have "previous (visit g c st) n = previous st n"
          by (intro visit_frame) simp
        with "1.IH"[OF False Some ne n] show ?thesis
          using False Some ne by (simp add: main_loop.simps[of g t st])
      qed
    qed
  qed
qed

lemma dijkstra_absent_end:
  assumes "t \<notin> node_ids g"
  shows "dijkstra g s t = None"
proof -
  from assms have "t \<notin> set (unvisited (initialize g s))"
    by (simp add: initialize_unvisited)
  from main_loop_frame[OF this, of g t] assms
  have "previous (main_loop g t (initialize g s)) t = Undefined"
    by (simp add: initialize_previous)
  with reconstruct_absent[of "previous (main_loop g t (initialize g s))" t "[]"]
  show ?thesis by (simp add: dijkstra_def)
qed

end
